theory Spec2Isabelle
  imports Complex_Main "HOL-Library.AList" "HOL-Library.Log_Nat" "HOL-Library.Word"
begin

section \<open>JavaScript numbers and helpers\<close>

text \<open>
  JavaScript numbers are IEEE 754 doubles. A finite double is a real number, and an
  arithmetic operation returns the exact result rounded to the nearest double, a tie
  going to the even mantissa. \<open>fl\<close> is that rounding: the mantissa has 53 bits, so a
  number between \<open>2^e\<close> and \<open>2^(e+1)\<close> is rounded to a multiple of \<open>2^(e-52)\<close>, and
  below \<open>2^-1022\<close> to a multiple of \<open>2^-1074\<close>. (A result beyond the largest double is
  \<open>Infinity\<close> in JavaScript; nothing below comes near it. The two zeros of IEEE are
  one number here: no operation of the program tells them apart.)
\<close>

definition pow2 :: "int \<Rightarrow> real" where
  "pow2 e = (if 0 \<le> e then 2 ^ nat e else 1 / 2 ^ nat (- e))"

text \<open>The exponent of a positive number: the \<open>e\<close> with \<open>2^e \<le> x < 2^(e+1)\<close>.\<close>

definition ilog2 :: "real \<Rightarrow> int" where
  "ilog2 x = (if 1 \<le> x then bitlen \<lfloor>x\<rfloor> - 1 else - bitlen (\<lceil>1 / x\<rceil> - 1))"

text \<open>Rounding to the nearest integer, a tie going to the even one.\<close>

definition rne :: "real \<Rightarrow> int" where
  "rne x = (let n = \<lfloor>x\<rfloor>; d = x - of_int n
            in if d < 1 / 2 then n else if 1 / 2 < d then n + 1
               else if even n then n else n + 1)"

definition fl :: "real \<Rightarrow> real" where
  "fl x = (if x = 0 then 0
           else (let e = max (ilog2 \<bar>x\<bar> - 52) (- 1074)
                 in of_int (rne (x / pow2 e)) * pow2 e))"

text \<open>
  The four operations on doubles. The colour conversions, whose results are rounded to
  integers, are written with them; \<open>%\<close>, \<open>Math.round\<close>, \<open>Math.floor\<close>, \<open>Math.max\<close> and
  \<open>Math.min\<close> are exact on doubles. The other arithmetic of the program (frequencies,
  canvas coordinates, means of bytes) is written with the exact operations on reals.
\<close>

definition js_add :: "real \<Rightarrow> real \<Rightarrow> real" where
  "js_add x y = fl (x + y)"

definition js_sub :: "real \<Rightarrow> real \<Rightarrow> real" where
  "js_sub x y = fl (x - y)"

definition js_mul :: "real \<Rightarrow> real \<Rightarrow> real" where
  "js_mul x y = fl (x * y)"

definition js_div :: "real \<Rightarrow> real \<Rightarrow> real" where
  "js_div x y = fl (x / y)"

text \<open>
  \<open>Math.round\<close> rounds to the nearest integer, a tie going up; \<open>%\<close> is the
  remainder whose sign follows the dividend.
\<close>

definition Math_round :: "real \<Rightarrow> int" where
  "Math_round x = \<lfloor>x + 1 / 2\<rfloor>"

definition js_trunc :: "real \<Rightarrow> int" where
  "js_trunc x = (if 0 \<le> x then \<lfloor>x\<rfloor> else \<lceil>x\<rceil>)"

definition js_rem :: "real \<Rightarrow> real \<Rightarrow> real" where
  "js_rem x y = x - y * of_int (js_trunc (x / y))"

definition js_irem :: "int \<Rightarrow> int \<Rightarrow> int" where
  "js_irem a b = a - b * js_trunc (of_int a / of_int b)"

definition clamp :: "real \<Rightarrow> real \<Rightarrow> real \<Rightarrow> real" where
  "clamp lo hi x = max lo (min hi x)"

section \<open>ColorModel: RGB and HSV\<close>

record rgb =
  rgb_r :: real
  rgb_g :: real
  rgb_b :: real

record hsv =
  hsv_h :: real
  hsv_s :: real
  hsv_v :: real

text \<open>\<open>ImageProcessor.rgbToHsv\<close> (imageProcessor.js, lines 244--275).\<close>

definition rgbToHsv :: "real \<Rightarrow> real \<Rightarrow> real \<Rightarrow> hsv" where
  "rgbToHsv r0 g0 b0 =
     (let r = js_div r0 255; g = js_div g0 255; b = js_div b0 255;
          mx = max (max r g) b;
          mn = min (min r g) b;
          diff = js_sub mx mn;
          s = (if mx = 0 then 0 else js_div diff mx);
          v = mx;
          h = (if diff \<noteq> 0 then
                 (if mx = r then js_rem (js_div (js_sub g b) diff) 6
                  else if mx = g then js_add (js_div (js_sub b r) diff) 2
                  else js_add (js_div (js_sub r g) diff) 4)
               else 0);
          h1 = Math_round (js_mul h 60);
          h2 = (if h1 < 0 then h1 + 360 else h1)
      in \<lparr>hsv_h = of_int h2, hsv_s = of_int (Math_round (js_mul s 100)),
          hsv_v = of_int (Math_round (js_mul v 100))\<rparr>)"

text \<open>\<open>HsvMapper.hsvToRgb\<close> (lines 180--218 of the mapper).\<close>

definition hsvToRgb :: "real \<Rightarrow> real \<Rightarrow> real \<Rightarrow> rgb" where
  "hsvToRgb h0 s0 v0 =
     (let h = js_div (clamp 0 360 h0) 360;
          s = js_div (clamp 0 100 s0) 100;
          v = js_div (clamp 0 100 v0) 100;
          (r, g, b) =
            (if s = 0 then (v, v, v)
             else
               (let i = \<lfloor>js_mul h 6\<rfloor>;
                    f = js_sub (js_mul h 6) (of_int i);
                    p = js_mul v (js_sub 1 s);
                    q = js_mul v (js_sub 1 (js_mul s f));
                    t = js_mul v (js_sub 1 (js_mul s (js_sub 1 f)));
                    k = js_irem i 6
                in if k = 0 then (v, t, p)
                   else if k = 1 then (q, v, p)
                   else if k = 2 then (p, v, t)
                   else if k = 3 then (p, q, v)
                   else if k = 4 then (t, p, v)
                   else (v, p, q)))
      in \<lparr>rgb_r = of_int (Math_round (js_mul r 255)),
          rgb_g = of_int (Math_round (js_mul g 255)),
          rgb_b = of_int (Math_round (js_mul b 255))\<rparr>)"

definition roundTrip :: "real \<Rightarrow> real \<Rightarrow> real \<Rightarrow> rgb" where
  "roundTrip r g b =
     (let c = rgbToHsv r g b in hsvToRgb (hsv_h c) (hsv_s c) (hsv_v c))"

section \<open>SoundMapper\<close>

record HsvMapper =
  frequencyRange_min :: real
  frequencyRange_max :: real
  currentScale :: string
  baseFrequency :: real

definition musicalScales :: "(string \<times> int list) list" where
  "musicalScales =
     [(''chromatic'', [0, 1, 2, 3, 4, 5, 6, 7, 8, 9, 10, 11]),
      (''major'', [0, 2, 4, 5, 7, 9, 11]),
      (''minor'', [0, 2, 3, 5, 7, 8, 10]),
      (''pentatonic'', [0, 2, 4, 7, 9]),
      (''blues'', [0, 3, 5, 6, 7, 10])]"

definition newHsvMapper :: HsvMapper where
  "newHsvMapper = \<lparr>frequencyRange_min = 200, frequencyRange_max = 2000,
                    currentScale = ''pentatonic'', baseFrequency = 220\<rparr>"

definition setBaseFrequency :: "HsvMapper \<Rightarrow> real \<Rightarrow> HsvMapper" where
  "setBaseFrequency m frequency = m\<lparr>baseFrequency := max 100 (min 1000 frequency)\<rparr>"

text \<open>
  Reading an array outside its bounds gives \<open>undefined\<close> in JavaScript, and the
  arithmetic on it \<open>NaN\<close>: the model returns \<open>None\<close> there.
\<close>

definition js_index :: "'a list \<Rightarrow> int \<Rightarrow> 'a option" where
  "js_index xs i = (if 0 \<le> i \<and> i < int (length xs) then Some (xs ! nat i) else None)"

definition scalePitch :: "real \<Rightarrow> int \<Rightarrow> int \<Rightarrow> real" where
  "scalePitch base octave semitone =
     base * 2 powr (real_of_int (octave * 12 + semitone) / 12)"

definition mapHueToFrequency :: "HsvMapper \<Rightarrow> real \<Rightarrow> real option" where
  "mapHueToFrequency m hue =
     (let normalizedHue = hue / 360 in
      case map_of musicalScales (currentScale m) of
        None \<Rightarrow> None
      | Some scale \<Rightarrow>
          (let scaleIndex = \<lfloor>normalizedHue * real (length scale)\<rfloor> in
           case js_index scale (js_irem scaleIndex (int (length scale))) of
             None \<Rightarrow> None
           | Some semitone \<Rightarrow>
               (let octave = \<lfloor>normalizedHue * 3\<rfloor>;
                    frequency = scalePitch (baseFrequency m) octave semitone
                in Some (max (frequencyRange_min m)
                          (min (frequencyRange_max m) frequency)))))"

text \<open>The configurations the two mutators can reach from the constructor's.\<close>

definition validMapper :: "HsvMapper \<Rightarrow> bool" where
  "validMapper m \<longleftrightarrow>
     frequencyRange_min m = 200 \<and> frequencyRange_max m = 2000 \<and>
     currentScale m \<in> set (map fst musicalScales) \<and>
     (baseFrequency m = 220 \<or> (100 \<le> baseFrequency m \<and> baseFrequency m \<le> 1000))"

text \<open>
  A frequency is on the scale when it is \<open>base * 2^((12 * octave + semitone) / 12)\<close>
  for one of the three octaves the hue range spans and a semitone of the scale.
\<close>

definition onScale :: "real \<Rightarrow> int list \<Rightarrow> real \<Rightarrow> bool" where
  "onScale base scale f \<longleftrightarrow>
     list_ex (\<lambda>octave. list_ex (\<lambda>semitone. f = scalePitch base octave semitone) scale)
       [0, 1, 2]"

definition scaleOf :: "HsvMapper \<Rightarrow> int list" where
  "scaleOf m = (case map_of musicalScales (currentScale m) of Some sc \<Rightarrow> sc | None \<Rightarrow> [])"

section \<open>VoicePool: the audio engine\<close>

text \<open>
  The keys of the two \<open>Map\<close>s. A JavaScript \<open>Map\<close> compares keys without
  conversion, so the number \<open>3\<close> and the string \<open>3_0\<close> are different keys:
  \<open>NumKey c\<close> is the number \<open>c\<close>, \<open>CellKey c i\<close> the string
  \<open>`${c}_${i}`\<close>, and \<open>NoteKey t x\<close> the string \<open>`note_${t}_${x}`\<close> built from
  \<open>Date.now()\<close> and \<open>Math.random()\<close>.
\<close>

datatype key = NumKey int | CellKey int nat | NoteKey int real

datatype waveform = Sine | Triangle | Sawtooth | Square

record synth =
  oscillator_type :: waveform
  envelope_attack :: real
  envelope_decay :: real
  envelope_sustain :: real
  envelope_release :: real

record synthData =
  sd_synth :: synth
  sd_frequency :: real
  sd_volume :: real
  sd_hsv :: hsv

text \<open>
  A \<open>Map\<close> keeps its entries in insertion order: an association list, \<open>set\<close>
  being \<open>AList.update\<close> and \<open>delete\<close> being \<open>AList.delete\<close>.
\<close>

record AudioEngine =
  isInitialized :: bool
  synths :: "(key \<times> synthData) list"
  maxSynths :: nat
  currentMode :: string
  scanSounds :: "(key \<times> synth) list"
  masterVolume :: real
  needsUserGesture :: bool
  masterGain :: "real option"
  reverb :: "(real \<times> real) option"

definition newAudioEngine :: AudioEngine where
  "newAudioEngine =
     \<lparr>isInitialized = False, synths = [], maxSynths = 5, currentMode = ''single'',
      scanSounds = [], masterVolume = 3 / 10, needsUserGesture = True,
      masterGain = None, reverb = None\<rparr>"

text \<open>
  \<open>init\<close> awaits \<open>Tone.start()\<close> and builds the gain and the reverb stage inside one
  \<open>try\<close>; the parameter says which of the three steps of the sound library throws, if
  any. The fields assigned before the throw keep their values, and the \<open>catch\<close>
  branch sets \<open>isInitialized\<close> all the same.
\<close>

datatype init_outcome = StartFails | GainFails | ReverbFails | InitOk

definition init :: "init_outcome \<Rightarrow> AudioEngine \<Rightarrow> AudioEngine" where
  "init oc e =
     (case oc of
        StartFails \<Rightarrow> e\<lparr>isInitialized := True\<rparr>
      | GainFails \<Rightarrow> e\<lparr>isInitialized := True\<rparr>
      | ReverbFails \<Rightarrow> e\<lparr>masterGain := Some (masterVolume e), isInitialized := True\<rparr>
      | InitOk \<Rightarrow> e\<lparr>masterGain := Some (masterVolume e), reverb := Some (2, 3 / 10),
                     isInitialized := True\<rparr>)"

definition hsvToFrequency :: "real \<Rightarrow> real" where
  "hsvToFrequency hue = (let minFreq = 200; maxFreq = 2000
                         in minFreq + (hue / 360) * (maxFreq - minFreq))"

definition hsvToAttack :: "real \<Rightarrow> real" where
  "hsvToAttack saturation = 1 / 100 + (saturation / 100) * (1 / 10)"

definition hsvToRelease :: "real \<Rightarrow> real" where
  "hsvToRelease val = 1 / 10 + (val / 100) * 1"

definition hsvToVolume :: "real \<Rightarrow> real" where
  "hsvToVolume val = 1 / 10 + (val / 100) * (7 / 10)"

definition hsvToWaveform :: "real \<Rightarrow> waveform" where
  "hsvToWaveform saturation =
     (if saturation < 25 then Sine
      else if saturation < 50 then Triangle
      else if saturation < 75 then Sawtooth
      else Square)"

text \<open>
  A call that throws leaves the engine in the state reached before the throw: an
  error result carries that state.
\<close>

datatype error = ConnectToUndefined

type_synonym 'a result = "(error \<times> AudioEngine) + 'a"

text \<open>
  \<open>createSynth\<close> connects the new synth to \<open>this.reverb\<close>, which is \<open>undefined\<close>
  after a failed \<open>init\<close>. What \<open>connect(undefined)\<close> does belongs to the sound
  library, not to this program: \<open>connectThrows\<close> says whether it throws.
\<close>

definition createSynth ::
  "bool \<Rightarrow> AudioEngine \<Rightarrow> hsv \<Rightarrow> key \<Rightarrow> (AudioEngine \<times> synth option) result" where
  "createSynth connectThrows e c ident =
     (if \<not> isInitialized e then Inr (e, None)
      else
        (let frequency = hsvToFrequency (hsv_h c);
             attack = hsvToAttack (hsv_s c);
             release = hsvToRelease (hsv_v c);
             volume = hsvToVolume (hsv_v c);
             sy = \<lparr>oscillator_type = hsvToWaveform (hsv_s c), envelope_attack = attack,
                   envelope_decay = 2 / 10, envelope_sustain = 3 / 10,
                   envelope_release = release\<rparr>
         in if reverb e = None \<and> connectThrows then Inl (ConnectToUndefined, e)
            else Inr (e\<lparr>synths := AList.update ident
                          \<lparr>sd_synth = sy, sd_frequency = frequency, sd_volume = volume,
                           sd_hsv = c\<rparr> (synths e)\<rparr>, Some sy)))"

definition cleanupSynth :: "AudioEngine \<Rightarrow> key \<Rightarrow> AudioEngine" where
  "cleanupSynth e ident =
     (case map_of (synths e) ident of
        Some synthData \<Rightarrow> e\<lparr>synths := AList.delete ident (synths e)\<rparr>
      | None \<Rightarrow> e)"

text \<open>Pending \<open>setTimeout\<close> callbacks: the delay in milliseconds and what the closure holds.\<close>

datatype timer = CleanupTimer real key | ScanTimer real hsv nat

text \<open>
  \<open>playNote\<close>; \<open>now\<close> and \<open>rnd\<close> are the values of \<open>Date.now()\<close> and
  \<open>Math.random()\<close> the identifier is built from. \<open>duration || ...\<close> takes the
  computed duration when the argument is missing or zero.
\<close>

definition playNote ::
  "bool \<Rightarrow> AudioEngine \<Rightarrow> hsv \<Rightarrow> real option \<Rightarrow> int \<Rightarrow> real
     \<Rightarrow> (AudioEngine \<times> timer list) result" where
  "playNote connectThrows e c duration now rnd =
     (if \<not> isInitialized e then Inr (e, [])
      else
        (let computed = 1 / 10 + (100 - hsv_v c) / 100 * (3 / 10);
             calculatedDuration =
               (case duration of None \<Rightarrow> computed
                | Some d \<Rightarrow> if d = 0 then computed else d);
             ident = NoteKey now rnd
         in case createSynth connectThrows e c ident of
              Inl err \<Rightarrow> Inl err
            | Inr (e', None) \<Rightarrow> Inr (e', [])
            | Inr (e', Some sy) \<Rightarrow>
                Inr (e', [CleanupTimer (calculatedDuration * 1000 + 500) ident])))"

definition stopScanSound :: "AudioEngine \<Rightarrow> key \<Rightarrow> AudioEngine" where
  "stopScanSound e columnId =
     (let e1 = (case map_of (synths e) columnId of
                  Some synthData \<Rightarrow> cleanupSynth e columnId
                | None \<Rightarrow> e)
      in e1\<lparr>scanSounds := AList.delete columnId (scanSounds e1)\<rparr>)"

definition startScanSound :: "bool \<Rightarrow> AudioEngine \<Rightarrow> hsv \<Rightarrow> key \<Rightarrow> AudioEngine result" where
  "startScanSound connectThrows e c columnId =
     (if \<not> isInitialized e \<or> currentMode e \<noteq> ''scan'' then Inr e
      else
        (let e1 = stopScanSound e columnId
         in case createSynth connectThrows e1 c columnId of
              Inl err \<Rightarrow> Inl err
            | Inr (e2, None) \<Rightarrow> Inr e2
            | Inr (e2, Some sy) \<Rightarrow>
                Inr (e2\<lparr>scanSounds := AList.update columnId sy (scanSounds e2)\<rparr>)))"

text \<open>
  \<open>stopAllScanSounds\<close>: \<open>forEach\<close> visits the entries of \<open>scanSounds\<close> in order,
  each call deleting the entry it visits; then the map is cleared.
\<close>

definition stopAllScanSounds :: "AudioEngine \<Rightarrow> AudioEngine" where
  "stopAllScanSounds e =
     (fold (\<lambda>columnId e'. stopScanSound e' columnId) (map fst (scanSounds e)) e)
       \<lparr>scanSounds := []\<rparr>"

definition setMode :: "AudioEngine \<Rightarrow> string \<Rightarrow> AudioEngine" where
  "setMode e m =
     (let e1 = e\<lparr>currentMode := m\<rparr>
      in if m = ''single'' then stopAllScanSounds e1 else e1)"

definition dispose :: "AudioEngine \<Rightarrow> AudioEngine" where
  "dispose e = fold (\<lambda>ident e'. cleanupSynth e' ident) (map fst (synths e)) e"

text \<open>The live voices of the pool are the entries of its two maps.\<close>

definition liveKeys :: "AudioEngine \<Rightarrow> key set" where
  "liveKeys e = fst ` set (synths e) \<union> fst ` set (scanSounds e)"

section \<open>PixelGrid: the image processor\<close>

text \<open>
  The colour of a canvas pixel: three bytes (every pixel the program reads is opaque,
  so the alpha byte is always 255). A canvas is its size and its bitmap; a
  decoded image likewise.
\<close>

type_synonym colour = "8 word \<times> 8 word \<times> 8 word"

record canvas =
  canvas_width :: nat
  canvas_height :: nat
  canvas_px :: "nat \<Rightarrow> nat \<Rightarrow> colour"

record image =
  image_width :: nat
  image_height :: nat
  image_px :: "nat \<Rightarrow> nat \<Rightarrow> colour"

text \<open>
  What the browser's 2D context does is not this program's code. Two of its choices are
  left open as parameters: how a stroke of one pixel width and 10\% opacity changes a
  pixel it touches (\<open>stroke_blend\<close>), and how \<open>drawImage\<close> resamples the scaled
  image onto a pixel of the destination rectangle (\<open>draw_resample\<close>, given the image,
  the destination rectangle, the pixel and its old colour).
\<close>

record browser =
  stroke_blend :: "colour \<Rightarrow> colour"
  draw_resample :: "image \<Rightarrow> real \<Rightarrow> real \<Rightarrow> real \<Rightarrow> real \<Rightarrow> nat \<Rightarrow> nat \<Rightarrow> colour \<Rightarrow> colour"

text \<open>\<open>fillRect\<close> with an opaque colour on whole-pixel coordinates.\<close>

definition fillRect :: "canvas \<Rightarrow> nat \<Rightarrow> nat \<Rightarrow> nat \<Rightarrow> nat \<Rightarrow> colour \<Rightarrow> canvas" where
  "fillRect cv x y w h c =
     cv\<lparr>canvas_px := (\<lambda>px py. if x \<le> px \<and> px < x + w \<and> y \<le> py \<and> py < y + h then c
                              else canvas_px cv px py)\<rparr>"

text \<open>
  \<open>strokeRect\<close> with line width 1 on whole-pixel coordinates paints the band of half
  a pixel on either side of the rectangle's outline: it touches the pixels of the
  rectangle grown by one pixel that are not inside the rectangle shrunk by one pixel.
\<close>

definition onOutline :: "nat \<Rightarrow> nat \<Rightarrow> nat \<Rightarrow> nat \<Rightarrow> nat \<Rightarrow> nat \<Rightarrow> bool" where
  "onOutline x y w h px py \<longleftrightarrow>
     x \<le> px + 1 \<and> px \<le> x + w \<and> y \<le> py + 1 \<and> py \<le> y + h \<and>
     \<not> (x + 1 \<le> px \<and> px + 2 \<le> x + w \<and> y + 1 \<le> py \<and> py + 2 \<le> y + h)"

definition strokeRect :: "browser \<Rightarrow> canvas \<Rightarrow> nat \<Rightarrow> nat \<Rightarrow> nat \<Rightarrow> nat \<Rightarrow> canvas" where
  "strokeRect br cv x y w h =
     cv\<lparr>canvas_px := (\<lambda>px py. if onOutline x y w h px py
                              then stroke_blend br (canvas_px cv px py)
                              else canvas_px cv px py)\<rparr>"

text \<open>\<open>drawImage\<close> changes only pixels that meet the destination rectangle.\<close>

definition drawImage :: "browser \<Rightarrow> canvas \<Rightarrow> image \<Rightarrow> real \<Rightarrow> real \<Rightarrow> real \<Rightarrow> real \<Rightarrow> canvas" where
  "drawImage br cv img dx dy dw dh =
     cv\<lparr>canvas_px := (\<lambda>px py. if dx < real px + 1 \<and> real px < dx + dw \<and>
                                 dy < real py + 1 \<and> real py < dy + dh
                              then draw_resample br img dx dy dw dh px py (canvas_px cv px py)
                              else canvas_px cv px py)\<rparr>"

text \<open>\<open>getImageData(0, 0, width, height).data\<close>: four bytes a pixel, row by row.\<close>

definition getImageData :: "canvas \<Rightarrow> 8 word list" where
  "getImageData cv =
     concat (map (\<lambda>i. case canvas_px cv (i mod canvas_width cv) (i div canvas_width cv) of
                         (r, g, b) \<Rightarrow> [r, g, b, 255])
                 [0..<canvas_width cv * canvas_height cv])"

record cell =
  cell_rgb :: rgb
  cell_hsv :: hsv
  gridX :: nat
  gridY :: nat
  pixelX :: nat
  pixelY :: nat

record ImageProcessor =
  originalImage :: "image option"
  pixelData :: "cell list list"
  pixelSize :: nat
  maxPixelSize :: nat
  minPixelSize :: nat
  canvas :: "canvas option"
  imageWidth :: real
  imageHeight :: real
  imageOffsetX :: real
  imageOffsetY :: real

definition newImageProcessor :: ImageProcessor where
  "newImageProcessor =
     \<lparr>originalImage = None, pixelData = [], pixelSize = 50, maxPixelSize = 100,
      minPixelSize = 10, canvas = None, imageWidth = 0, imageHeight = 0,
      imageOffsetX = 0, imageOffsetY = 0\<rparr>"

text \<open>
  \<open>calculateAverageColor\<close>: the two nested loops add up the three channels of every
  pixel of the cell, clipped to the bitmap. (A cell with no pixel would divide by zero;
  no cell of the grid is empty.)
\<close>

definition sumCell ::
  "8 word list \<Rightarrow> nat \<Rightarrow> nat \<Rightarrow> nat \<Rightarrow> nat \<Rightarrow> nat \<Rightarrow> nat \<times> nat \<times> nat \<times> nat" where
  "sumCell data width startX endX startY endY =
     fold (\<lambda>y acc.
             fold (\<lambda>x (r, g, b, count).
                     (let index = (y * width + x) * 4
                      in (r + unat (data ! index), g + unat (data ! (index + 1)),
                          b + unat (data ! (index + 2)), count + 1)))
                  [startX..<endX] acc)
          [startY..<endY] (0, 0, 0, 0)"

definition calculateAverageColor ::
  "8 word list \<Rightarrow> nat \<Rightarrow> nat \<Rightarrow> nat \<Rightarrow> nat \<Rightarrow> nat \<Rightarrow> rgb" where
  "calculateAverageColor data width height startX startY cellSize =
     (let endX = min (startX + cellSize) width;
          endY = min (startY + cellSize) height
      in case sumCell data width startX endX startY endY of
           (r, g, b, count) \<Rightarrow>
             \<lparr>rgb_r = of_int (Math_round (real r / real count)),
              rgb_g = of_int (Math_round (real g / real count)),
              rgb_b = of_int (Math_round (real b / real count))\<rparr>)"

text \<open>A CSS colour \<open>rgb(r, g, b)\<close> rounds each number and clamps it to 0..255.\<close>

definition cssChannel :: "real \<Rightarrow> 8 word" where
  "cssChannel x = of_nat (nat (min 255 (max 0 (Math_round x))))"

definition cssColour :: "rgb \<Rightarrow> colour" where
  "cssColour c = (cssChannel (rgb_r c), cssChannel (rgb_g c), cssChannel (rgb_b c))"

definition fillGridCell :: "browser \<Rightarrow> nat \<Rightarrow> canvas \<Rightarrow> nat \<Rightarrow> nat \<Rightarrow> rgb \<Rightarrow> canvas" where
  "fillGridCell br sz cv gx gy color =
     (let x = gx * sz; y = gy * sz
      in strokeRect br (fillRect cv x y sz sz (cssColour color)) x y sz sz)"

definition gridCount :: "nat \<Rightarrow> nat \<Rightarrow> nat" where
  "gridCount extent sz = nat \<lceil>real extent / real sz\<rceil>"

definition paintCells ::
  "browser \<Rightarrow> nat \<Rightarrow> 8 word list \<Rightarrow> nat \<Rightarrow> nat \<Rightarrow> nat \<Rightarrow> nat \<Rightarrow> canvas \<Rightarrow> canvas" where
  "paintCells br sz data width height gridWidth gridHeight cv =
     fold (\<lambda>gy c.
             fold (\<lambda>gx c'.
                     fillGridCell br sz c' gx gy
                       (calculateAverageColor data width height (gx * sz) (gy * sz) sz))
                  [0..<gridWidth] c)
          [0..<gridHeight] cv"

definition applyPixelation :: "browser \<Rightarrow> ImageProcessor \<Rightarrow> ImageProcessor" where
  "applyPixelation br ip =
     (case canvas ip of
        None \<Rightarrow> ip
      | Some cv \<Rightarrow>
          (let data = getImageData cv;
               width = canvas_width cv;
               height = canvas_height cv;
               gridWidth = gridCount width (pixelSize ip);
               gridHeight = gridCount height (pixelSize ip)
           in ip\<lparr>canvas := Some (paintCells br (pixelSize ip) data width height
                                    gridWidth gridHeight cv)\<rparr>))"

definition extractCell :: "8 word list \<Rightarrow> nat \<Rightarrow> nat \<Rightarrow> nat \<Rightarrow> nat \<Rightarrow> nat \<Rightarrow> cell" where
  "extractCell data width height sz gx gy =
     (let px = gx * sz;
          py = gy * sz;
          centerX = min (px + sz div 2) (width - 1);
          centerY = min (py + sz div 2) (height - 1);
          index = (centerY * width + centerX) * 4;
          r = real (unat (data ! index));
          g = real (unat (data ! (index + 1)));
          b = real (unat (data ! (index + 2)))
      in \<lparr>cell_rgb = \<lparr>rgb_r = r, rgb_g = g, rgb_b = b\<rparr>, cell_hsv = rgbToHsv r g b,
          gridX = gx, gridY = gy, pixelX = px, pixelY = py\<rparr>)"

definition extractPixelData :: "ImageProcessor \<Rightarrow> ImageProcessor" where
  "extractPixelData ip =
     (case canvas ip of
        None \<Rightarrow> ip
      | Some cv \<Rightarrow>
          (let data = getImageData cv;
               width = canvas_width cv;
               height = canvas_height cv;
               gridWidth = gridCount width (pixelSize ip);
               gridHeight = gridCount height (pixelSize ip)
           in ip\<lparr>pixelData :=
                    map (\<lambda>gy. map (\<lambda>gx. extractCell data width height (pixelSize ip) gx gy)
                                  [0..<gridWidth])
                        [0..<gridHeight]\<rparr>))"

text \<open>
  \<open>processImage\<close>: the canvas always becomes 600 by 500 (setting its size clears it),
  is painted white, and the image is drawn scaled and centred (\<open>scaledSize\<close> is the
  size it is drawn at, \<open>drawnCanvas\<close> the bitmap after the drawing); then the two
  passes run.
\<close>

definition white :: colour where
  "white = (255, 255, 255)"

definition scaledSize :: "image \<Rightarrow> real \<times> real" where
  "scaledSize img =
     (let canvasWidth = 600;
          canvasHeight = 500;
          aspectRatio = real (image_width img) / real (image_height img)
      in if aspectRatio > canvasWidth / canvasHeight
         then (canvasWidth, canvasWidth / aspectRatio)
         else (canvasHeight * aspectRatio, canvasHeight))"

definition drawnCanvas :: "browser \<Rightarrow> image \<Rightarrow> canvas" where
  "drawnCanvas br img =
     (case scaledSize img of
        (imgW, imgH) \<Rightarrow>
          (let cv1 = \<lparr>canvas_width = 600, canvas_height = 500,
                      canvas_px = (\<lambda>x y. (0, 0, 0))\<rparr>;
               offsetX = (600 - imgW) / 2;
               offsetY = (500 - imgH) / 2;
               cv2 = fillRect cv1 0 0 600 500 white
           in drawImage br cv2 img offsetX offsetY imgW imgH))"

definition processImage :: "browser \<Rightarrow> ImageProcessor \<Rightarrow> ImageProcessor" where
  "processImage br ip =
     (case (originalImage ip, canvas ip) of
        (Some img, Some cv0) \<Rightarrow>
          (case scaledSize img of
             (imgW, imgH) \<Rightarrow>
               (let offsetX = (600 - imgW) / 2;
                    offsetY = (500 - imgH) / 2;
                    ip1 = ip\<lparr>canvas := Some (drawnCanvas br img), imageWidth := imgW,
                             imageHeight := imgH, imageOffsetX := offsetX,
                             imageOffsetY := offsetY\<rparr>
                in extractPixelData (applyPixelation br ip1)))
      | _ \<Rightarrow> ip)"

definition setPixelSize :: "browser \<Rightarrow> ImageProcessor \<Rightarrow> nat \<Rightarrow> ImageProcessor" where
  "setPixelSize br ip sz =
     (let ip1 = ip\<lparr>pixelSize := max (minPixelSize ip) (min (maxPixelSize ip) sz)\<rparr>
      in if originalImage ip1 \<noteq> None then processImage br ip1 else ip1)"

definition getPixelAt :: "ImageProcessor \<Rightarrow> real \<Rightarrow> real \<Rightarrow> cell option" where
  "getPixelAt ip x y =
     (if pixelData ip = [] then None
      else
        (let gx = \<lfloor>x / real (pixelSize ip)\<rfloor>;
             gy = \<lfloor>y / real (pixelSize ip)\<rfloor>
         in if 0 \<le> gy \<and> gy < int (length (pixelData ip)) \<and>
               0 \<le> gx \<and> gx < int (length (pixelData ip ! nat gy))
            then Some (pixelData ip ! nat gy ! nat gx)
            else None))"

definition getColumnPixels :: "ImageProcessor \<Rightarrow> real \<Rightarrow> cell option list" where
  "getColumnPixels ip x =
     (if pixelData ip = [] then []
      else
        (let gx = \<lfloor>x / real (pixelSize ip)\<rfloor>
         in if 0 \<le> gx \<and> gx < int (length (pixelData ip ! 0))
            then map (\<lambda>row. js_index row gx) (pixelData ip)
            else []))"

definition hasImage :: "ImageProcessor \<Rightarrow> bool" where
  "hasImage ip \<longleftrightarrow> originalImage ip \<noteq> None \<and> pixelData ip \<noteq> []"

section \<open>InteractionController: the interactive canvas\<close>

record App =
  audioEngine :: AudioEngine
  imageProcessor :: ImageProcessor
  canvasMode :: string
  isPlaying :: bool
  scanColumn :: int
  timers :: "timer list"

definition newApp :: "AudioEngine \<Rightarrow> ImageProcessor \<Rightarrow> App" where
  "newApp e ip = \<lparr>audioEngine = e, imageProcessor = ip, canvasMode = ''single'',
                  isPlaying = False, scanColumn = - 1, timers = []\<rparr>"

text \<open>
  \<open>handleScanMove\<close>. Each selected cell gets a timer whose callback reads
  \<open>this.scanColumn\<close> when it runs, not when it is created: the timer holds the
  cell's colour and its index only.
\<close>

definition scanStep :: "nat \<Rightarrow> nat" where
  "scanStep n = (let maxSimultaneousSounds = 5 in max 1 (n div maxSimultaneousSounds))"

definition scanTimers :: "cell option list \<Rightarrow> timer list" where
  "scanTimers columnPixels =
     (let step = scanStep (length columnPixels)
      in concat (map (\<lambda>(pixel, index).
                        case pixel of
                          None \<Rightarrow> []
                        | Some c \<Rightarrow>
                            if index mod step = 0
                            then [ScanTimer (real index / real step * 50) (cell_hsv c) index]
                            else [])
                     (zip columnPixels [0..<length columnPixels])))"

definition handleScanMove :: "App \<Rightarrow> real \<Rightarrow> App" where
  "handleScanMove app mouseX =
     (let newColumn = \<lfloor>mouseX / real (pixelSize (imageProcessor app))\<rfloor>
      in if newColumn \<noteq> scanColumn app then
           (let e1 = (if 0 \<le> scanColumn app
                      then stopScanSound (audioEngine app) (NumKey (scanColumn app))
                      else audioEngine app);
                columnPixels = getColumnPixels (imageProcessor app) mouseX
            in app\<lparr>audioEngine := e1, scanColumn := newColumn,
                   timers := timers app @ scanTimers columnPixels\<rparr>)
         else app)"

definition handleScanRelease :: "App \<Rightarrow> App" where
  "handleScanRelease app =
     (if 0 \<le> scanColumn app
      then app\<lparr>audioEngine := stopScanSound (audioEngine app) (NumKey (scanColumn app)),
               scanColumn := - 1\<rparr>
      else app)"

definition mouseMoved :: "App \<Rightarrow> real \<Rightarrow> App" where
  "mouseMoved app mouseX =
     (if \<not> hasImage (imageProcessor app) then app
      else if canvasMode app = ''scan'' \<and> isPlaying app then handleScanMove app mouseX
      else app)"

definition canvasSetMode :: "App \<Rightarrow> string \<Rightarrow> App" where
  "canvasSetMode app m =
     (let app1 = app\<lparr>canvasMode := m\<rparr>;
          app2 = (if m = ''single'' then handleScanRelease app1 else app1)
      in app2\<lparr>audioEngine := setMode (audioEngine app2) m\<rparr>)"

definition setPlaying :: "App \<Rightarrow> bool \<Rightarrow> App" where
  "setPlaying app playing =
     (let app1 = app\<lparr>isPlaying := playing\<rparr>
      in if \<not> playing then
           (let app2 = handleScanRelease app1
            in app2\<lparr>audioEngine := stopAllScanSounds (audioEngine app2)\<rparr>)
         else app1)"

text \<open>
  The event loop runs a pending timer: its callback is executed and the timer is gone.
  A callback that throws leaves the state reached before the throw.
\<close>

definition runTimer :: "bool \<Rightarrow> App \<Rightarrow> timer \<Rightarrow> (error \<times> App) + App" where
  "runTimer connectThrows app t =
     (case t of
        ScanTimer delay c index \<Rightarrow>
          (case startScanSound connectThrows (audioEngine app) c
                  (CellKey (scanColumn app) index) of
             Inl (err, e) \<Rightarrow> Inl (err, app\<lparr>audioEngine := e\<rparr>)
           | Inr e \<Rightarrow> Inr (app\<lparr>audioEngine := e\<rparr>))
      | CleanupTimer delay ident \<Rightarrow>
          Inr (app\<lparr>audioEngine := cleanupSynth (audioEngine app) ident\<rparr>))"

definition fireTimer :: "bool \<Rightarrow> App \<Rightarrow> nat \<Rightarrow> (error \<times> App) + App" where
  "fireTimer connectThrows app i =
     (if i < length (timers app)
      then runTimer connectThrows
             (app\<lparr>timers := take i (timers app) @ drop (Suc i) (timers app)\<rparr>)
             (timers app ! i)
      else Inr app)"

text \<open>Firing the pending timers one after the other, the oldest first each time.\<close>

fun fireAll :: "bool \<Rightarrow> nat \<Rightarrow> App \<Rightarrow> (error \<times> App) + App" where
  "fireAll connectThrows 0 app = Inr app"
| "fireAll connectThrows (Suc n) app =
     (case fireTimer connectThrows app 0 of
        Inl err \<Rightarrow> Inl err
      | Inr app' \<Rightarrow> fireAll connectThrows n app')"

text \<open>A saturated, bright red: the colour used where a concrete pixel is needed.\<close>

definition sampleHsv :: hsv where
  "sampleHsv = \<lparr>hsv_h = 0, hsv_s = 100, hsv_v = 100\<rparr>"

text \<open>A pool that holds one transient note and one scan voice.\<close>

definition samplePool :: AudioEngine where
  "samplePool =
     projr (startScanSound False
       (fst (projr (playNote False (setMode (init InitOk newAudioEngine) ''scan'')
          sampleHsv None 0 0)))
       sampleHsv (CellKey 0 0))"

text \<open>
  Concrete collaborators for evaluation: a black image of 100 by 100 pixels, the canvas
  as \<open>document.createElement\<close> makes it, and a browser that darkens a stroked pixel
  by a twentieth and resamples to the nearest pixel.
\<close>

definition blackImage :: image where
  "blackImage = \<lparr>image_width = 100, image_height = 100, image_px = (\<lambda>x y. (0, 0, 0))\<rparr>"

definition blankCanvas :: canvas where
  "blankCanvas = \<lparr>canvas_width = 300, canvas_height = 150, canvas_px = (\<lambda>x y. (0, 0, 0))\<rparr>"

definition sampleBrowser :: browser where
  "sampleBrowser =
     \<lparr>stroke_blend = (\<lambda>(r, g, b). (r - r div 20, g - g div 20, b - b div 20)),
      draw_resample = (\<lambda>img dx dy dw dh px py old.
         image_px img (nat \<lfloor>(real px - dx) * real (image_width img) / dw\<rfloor>)
                      (nat \<lfloor>(real py - dy) * real (image_height img) / dh\<rfloor>))\<rparr>"

definition sampleProcessor :: "nat \<Rightarrow> ImageProcessor" where
  "sampleProcessor sz =
     newImageProcessor\<lparr>originalImage := Some blackImage, canvas := Some blankCanvas,
                        pixelSize := sz\<rparr>"

definition loadedProcessor :: "nat \<Rightarrow> ImageProcessor" where
  "loadedProcessor sz = processImage sampleBrowser (sampleProcessor sz)"

text \<open>The sum of a channel over a block of pixels, and its mean.\<close>

definition blockSum :: "(nat \<Rightarrow> nat \<Rightarrow> nat) \<Rightarrow> nat \<Rightarrow> nat \<Rightarrow> nat \<Rightarrow> nat \<Rightarrow> nat" where
  "blockSum f x0 x1 y0 y1 = (\<Sum>y = y0..<y1. \<Sum>x = x0..<x1. f x y)"

definition blockMean :: "(nat \<Rightarrow> nat \<Rightarrow> nat) \<Rightarrow> nat \<Rightarrow> nat \<Rightarrow> nat \<Rightarrow> nat \<Rightarrow> real" where
  "blockMean f x0 x1 y0 y1 = real (blockSum f x0 x1 y0 y1) / real ((x1 - x0) * (y1 - y0))"

definition red :: "colour \<Rightarrow> nat" where
  "red c = (case c of (r, g, b) \<Rightarrow> unat r)"

definition green :: "colour \<Rightarrow> nat" where
  "green c = (case c of (r, g, b) \<Rightarrow> unat g)"

definition blue :: "colour \<Rightarrow> nat" where
  "blue c = (case c of (r, g, b) \<Rightarrow> unat b)"

text \<open>The canvas of \<open>processImage\<close> after the pixelation pass.\<close>

definition pixelatedCanvas :: "browser \<Rightarrow> image \<Rightarrow> nat \<Rightarrow> canvas" where
  "pixelatedCanvas br img sz =
     paintCells br sz (getImageData (drawnCanvas br img)) 600 500
       (gridCount 600 sz) (gridCount 500 sz) (drawnCanvas br img)"

text \<open>The cell whose bounds contain a point.\<close>

definition cellContains :: "nat \<Rightarrow> cell \<Rightarrow> real \<Rightarrow> real \<Rightarrow> bool" where
  "cellContains sz c x y \<longleftrightarrow>
     real (pixelX c) \<le> x \<and> x < real (pixelX c + sz) \<and>
     real (pixelY c) \<le> y \<and> y < real (pixelY c + sz)"

text \<open>
  The colour a block of a canvas averages to: for each channel the mean over the block,
  rounded by \<open>Math.round\<close>.
\<close>

definition meanColour :: "canvas \<Rightarrow> nat \<Rightarrow> nat \<Rightarrow> nat \<Rightarrow> nat \<Rightarrow> rgb" where
  "meanColour cv x0 x1 y0 y1 =
     \<lparr>rgb_r = of_int (Math_round (blockMean (\<lambda>x y. red (canvas_px cv x y)) x0 x1 y0 y1)),
      rgb_g = of_int (Math_round (blockMean (\<lambda>x y. green (canvas_px cv x y)) x0 x1 y0 y1)),
      rgb_b = of_int (Math_round (blockMean (\<lambda>x y. blue (canvas_px cv x y)) x0 x1 y0 y1))\<rparr>"

text \<open>
  A pixel is inside a cell's stroke when it lies in the cell and not on its outline;
  painting a cell touches the pixels of the cell grown by one pixel.
\<close>

definition interior :: "nat \<Rightarrow> nat \<Rightarrow> nat \<Rightarrow> nat \<Rightarrow> nat \<Rightarrow> bool" where
  "interior sz gx gy x y \<longleftrightarrow>
     gx * sz + 1 \<le> x \<and> x + 2 \<le> gx * sz + sz \<and> gy * sz + 1 \<le> y \<and> y + 2 \<le> gy * sz + sz"

definition touches :: "nat \<Rightarrow> nat \<Rightarrow> nat \<Rightarrow> nat \<Rightarrow> nat \<Rightarrow> bool" where
  "touches sz gx gy x y \<longleftrightarrow>
     gx * sz \<le> x + 1 \<and> x \<le> gx * sz + sz \<and> gy * sz \<le> y + 1 \<and> y \<le> gy * sz + sz"

text \<open>A decoded image read as a bitmap of its own size.\<close>

definition imageAsCanvas :: "image \<Rightarrow> canvas" where
  "imageAsCanvas img =
     \<lparr>canvas_width = image_width img, canvas_height = image_height img,
      canvas_px = image_px img\<rparr>"

text \<open>
  An engine that can start scan voices: initialized, in scan mode, with its reverb
  stage in place.
\<close>

definition engineReady :: "AudioEngine \<Rightarrow> bool" where
  "engineReady e \<longleftrightarrow> isInitialized e \<and> currentMode e = ''scan'' \<and> reverb e \<noteq> None"

text \<open>
  The application after a successful \<open>init\<close>, switched to scan mode and playing, on
  the sample image processed at a given cell size.
\<close>

definition scanApp :: "nat \<Rightarrow> App" where
  "scanApp sz =
     setPlaying
       (canvasSetMode (newApp (init InitOk newAudioEngine) (loadedProcessor sz)) ''scan'')
       True"

text \<open>
  The sector interpolation of \<open>hsvToRgb\<close> as weights: at the hue position
  \<open>u = hue / 60\<close> a channel has the value \<open>v * (1 - s * w)\<close>, where the weight
  \<open>w\<close> is 0 for the strongest channel, 1 for the weakest and linear in between. The
  weights are written so that they also cover the positions from -1 to 0, which
  \<open>rgbToHsv\<close> wraps around to 300..360 degrees.
\<close>

definition weightR :: "real \<Rightarrow> real" where
  "weightR u = max 0 (min 1 (min (u - 1) (5 - u)))"

definition weightG :: "real \<Rightarrow> real" where
  "weightG u = max 0 (min 1 (max (1 - u) (u - 3)))"

definition weightB :: "real \<Rightarrow> real" where
  "weightB u = max 0 (min 1 (min (u + 1) (max (3 - u) (u - 5))))"

text \<open>
  The hue position \<open>rgbToHsv\<close> computes before it multiplies by 60 and rounds:
  between -1 and 5, by the channel that is the maximum.
\<close>

definition huePosition :: "real \<Rightarrow> real \<Rightarrow> real \<Rightarrow> real" where
  "huePosition r g b =
     (let mx = max (max r g) b; mn = min (min r g) b; diff = mx - mn
      in if diff \<noteq> 0 then
           (if mx = r then (g - b) / diff
            else if mx = g then (b - r) / diff + 2
            else (r - g) / diff + 4)
         else 0)"

section \<open>Properties of the number helpers\<close>

lemma js_irem_small:
  assumes "0 \<le> a" "a < b"
  shows "js_irem a b = a"
proof -
  have "\<lfloor>real_of_int a / real_of_int b\<rfloor> = 0"
    using assms by (intro floor_unique) simp_all
  then show ?thesis using assms by (simp add: js_irem_def js_trunc_def)
qed

text \<open>
  The rounding to doubles: the exponent brackets its argument, the rounded number is
  within half a unit of the last place, and a number of the unit interval stays there.
\<close>

lemma pow2_powr: "pow2 e = 2 powr (of_int e)"
  by (simp add: pow2_def powr_real_of_int inverse_eq_divide)

lemma pow2_pos: "0 < pow2 e"
  by (simp add: pow2_powr)

lemma pow2_add: "pow2 (a + b) = pow2 a * pow2 b"
  by (simp add: pow2_powr powr_add)

lemma pow2_less_iff: "pow2 a < pow2 b \<longleftrightarrow> a < b"
  by (simp add: pow2_powr)

lemma pow2_le_iff: "pow2 a \<le> pow2 b \<longleftrightarrow> a \<le> b"
  by (simp add: pow2_powr)

lemma pow2_nat: "0 \<le> e \<Longrightarrow> pow2 e = 2 ^ nat e"
  by (simp add: pow2_def)

lemma ilog2_bounds:
  assumes "0 < x"
  shows "pow2 (ilog2 x) \<le> x" "x < pow2 (ilog2 x + 1)"
proof -
  show "pow2 (ilog2 x) \<le> x"
  proof (cases "1 \<le> x")
    case True
    then have p: "0 < \<lfloor>x\<rfloor>" by linarith
    have b: "1 \<le> bitlen \<lfloor>x\<rfloor>" using p by (simp add: bitlen_alt_def)
    have "(2::int) ^ nat (bitlen \<lfloor>x\<rfloor> - 1) \<le> \<lfloor>x\<rfloor>" using bitlen_bounds[OF p] by simp
    then have "real_of_int (2 ^ nat (bitlen \<lfloor>x\<rfloor> - 1)) \<le> of_int \<lfloor>x\<rfloor>"
      by (simp only: of_int_le_iff)
    then have "(2::real) ^ nat (bitlen \<lfloor>x\<rfloor> - 1) \<le> x" by (simp add: le_floor_iff)
    then show ?thesis using True b by (simp add: ilog2_def pow2_def)
  next
    case False
    define y where "y = 1 / x"
    define N where "N = \<lceil>y\<rceil>"
    have y: "1 < y" using False assms by (simp add: y_def)
    have N: "2 \<le> N" using y unfolding N_def by linarith
    then have p: "0 < N - 1" by simp
    have "N - 1 < 2 ^ nat (bitlen (N - 1))" using bitlen_bounds[OF p] by simp
    then have "N \<le> 2 ^ nat (bitlen (N - 1))" by simp
    then have "real_of_int N \<le> 2 ^ nat (bitlen (N - 1))"
      by (metis of_int_le_iff of_int_numeral of_int_power)
    moreover have "y \<le> of_int N" unfolding N_def by linarith
    ultimately have "y \<le> 2 ^ nat (bitlen (N - 1))" by linarith
    then have "1 / 2 ^ nat (bitlen (N - 1)) \<le> x"
      using assms unfolding y_def by (simp add: field_simps)
    moreover have "0 < bitlen (N - 1)" using p by (simp add: bitlen_alt_def)
    ultimately show ?thesis using False
      by (simp add: ilog2_def pow2_def y_def[symmetric] N_def[symmetric])
  qed
  show "x < pow2 (ilog2 x + 1)"
  proof (cases "1 \<le> x")
    case True
    then have p: "0 < \<lfloor>x\<rfloor>" by linarith
    have b: "1 \<le> bitlen \<lfloor>x\<rfloor>" using p by (simp add: bitlen_alt_def)
    have "\<lfloor>x\<rfloor> < 2 ^ nat (bitlen \<lfloor>x\<rfloor>)" using bitlen_bounds[OF p] by simp
    then have "\<lfloor>x\<rfloor> + 1 \<le> 2 ^ nat (bitlen \<lfloor>x\<rfloor>)" by simp
    then have "real_of_int (\<lfloor>x\<rfloor> + 1) \<le> 2 ^ nat (bitlen \<lfloor>x\<rfloor>)"
      by (metis of_int_le_iff of_int_numeral of_int_power)
    moreover have "x < of_int (\<lfloor>x\<rfloor> + 1)" by linarith
    ultimately have "x < 2 ^ nat (bitlen \<lfloor>x\<rfloor>)" by linarith
    then show ?thesis using True b by (simp add: ilog2_def pow2_def)
  next
    case False
    define y where "y = 1 / x"
    define N where "N = \<lceil>y\<rceil>"
    have y: "1 < y" using False assms by (simp add: y_def)
    have N: "2 \<le> N" using y unfolding N_def by linarith
    then have p: "0 < N - 1" by simp
    have bl: "1 \<le> bitlen (N - 1)" using p by (simp add: bitlen_alt_def)
    have "2 ^ nat (bitlen (N - 1) - 1) \<le> N - 1" using bitlen_bounds[OF p] by simp
    then have "real_of_int (2 ^ nat (bitlen (N - 1) - 1)) \<le> of_int (N - 1)"
      by (simp only: of_int_le_iff)
    moreover have "of_int (N - 1) < y" unfolding N_def by linarith
    ultimately have lt: "2 ^ nat (bitlen (N - 1) - 1) < y" by simp
    have "x < 1 / 2 ^ nat (bitlen (N - 1) - 1)"
    proof -
      have "x * 2 ^ nat (bitlen (N - 1) - 1) < x * y"
        using lt assms by (intro mult_strict_left_mono)
      also have "x * y = 1" using assms by (simp add: y_def)
      finally show ?thesis by (simp add: field_simps)
    qed
    moreover have "pow2 (- bitlen (N - 1) + 1) = 1 / 2 ^ nat (bitlen (N - 1) - 1)"
    proof (cases "bitlen (N - 1) = 1")
      case True
      then show ?thesis by (simp add: pow2_def)
    next
      case False
      then have "1 < bitlen (N - 1)" using bl by simp
      then show ?thesis by (simp add: pow2_def)
    qed
    ultimately show ?thesis using False
      by (simp add: ilog2_def y_def[symmetric] N_def[symmetric])
  qed
qed

lemma ilog2_less:
  assumes "0 < x" "x < pow2 k"
  shows "ilog2 x < k"
proof -
  have "pow2 (ilog2 x) < pow2 k" using ilog2_bounds(1)[OF assms(1)] assms(2) by linarith
  then show ?thesis by (simp only: pow2_less_iff)
qed

lemma rne_close: "\<bar>of_int (rne x) - x\<bar> \<le> 1 / 2"
  unfolding rne_def Let_def by (auto split: if_splits; linarith)

lemma rne_le: "x \<le> of_int N \<Longrightarrow> rne x \<le> N"
  unfolding rne_def Let_def by (auto split: if_splits; linarith)

lemma rne_ge: "of_int N \<le> x \<Longrightarrow> N \<le> rne x"
  unfolding rne_def Let_def by (auto split: if_splits; linarith)

lemma fl_zero: "fl 0 = 0" by (simp add: fl_def)

lemma fl_close_exp:
  assumes "x \<noteq> 0"
  shows "\<bar>fl x - x\<bar> \<le> pow2 (max (ilog2 \<bar>x\<bar> - 52) (- 1074)) / 2"
proof -
  define e where "e = max (ilog2 \<bar>x\<bar> - 52) (- 1074)"
  have p: "0 < pow2 e" by (rule pow2_pos)
  have f: "fl x = of_int (rne (x / pow2 e)) * pow2 e"
    using assms by (simp add: fl_def Let_def e_def)
  have "\<bar>fl x - x\<bar> = \<bar>of_int (rne (x / pow2 e)) - x / pow2 e\<bar> * pow2 e"
  proof -
    have "fl x - x = (of_int (rne (x / pow2 e)) - x / pow2 e) * pow2 e"
      using p by (simp add: f left_diff_distrib)
    then show ?thesis using p by (simp add: abs_mult)
  qed
  also have "\<dots> \<le> 1 / 2 * pow2 e"
    using rne_close[of "x / pow2 e"] p by (intro mult_right_mono) simp_all
  finally show ?thesis by (simp add: e_def)
qed

lemma fl_error:
  assumes "\<bar>x\<bar> < 1024"
  shows "\<bar>fl x - x\<bar> \<le> 1 / 10000000000000"
proof (cases "x = 0")
  case True
  then show ?thesis by (simp add: fl_zero)
next
  case False
  then have pos: "0 < \<bar>x\<bar>" by simp
  have "\<bar>x\<bar> < pow2 10" using assms by (simp add: pow2_def)
  then have "ilog2 \<bar>x\<bar> < 10" using ilog2_less[OF pos] by blast
  then have "max (ilog2 \<bar>x\<bar> - 52) (- 1074) \<le> - 43" by simp
  then have "pow2 (max (ilog2 \<bar>x\<bar> - 52) (- 1074)) \<le> pow2 (- 43)"
    by (simp only: pow2_le_iff)
  then have "\<bar>fl x - x\<bar> \<le> pow2 (- 43) / 2" using fl_close_exp[OF False] by linarith
  also have "\<dots> \<le> 1 / 10000000000000" by (simp add: pow2_def)
  finally show ?thesis .
qed

lemma fl_nonneg:
  assumes "0 \<le> x"
  shows "0 \<le> fl x"
proof (cases "x = 0")
  case True
  then show ?thesis by (simp add: fl_zero)
next
  case False
  define e where "e = max (ilog2 \<bar>x\<bar> - 52) (- 1074)"
  have p: "0 < pow2 e" by (rule pow2_pos)
  have f: "fl x = of_int (rne (x / pow2 e)) * pow2 e"
    using False by (simp add: fl_def Let_def e_def)
  have "real_of_int 0 \<le> x / pow2 e" using assms p by simp
  then have "0 \<le> rne (x / pow2 e)" by (rule rne_ge)
  then show ?thesis using p by (simp add: f)
qed

lemma fl_le_one:
  assumes "x \<le> 1"
  shows "fl x \<le> 1"
proof (cases "0 < x")
  case False
  define e where "e = max (ilog2 \<bar>x\<bar> - 52) (- 1074)"
  have p: "0 < pow2 e" by (rule pow2_pos)
  show ?thesis
  proof (cases "x = 0")
    case True
    then show ?thesis by (simp add: fl_zero)
  next
    case nz: False
    have f: "fl x = of_int (rne (x / pow2 e)) * pow2 e"
      using nz by (simp add: fl_def Let_def e_def)
    have "x / pow2 e \<le> real_of_int 0" using False p by (simp add: divide_nonpos_pos)
    then have "rne (x / pow2 e) \<le> 0" by (rule rne_le)
    then have "of_int (rne (x / pow2 e)) * pow2 e \<le> 0"
      using p by (simp add: mult_nonpos_nonneg)
    then show ?thesis by (simp add: f)
  qed
next
  case True
  define e where "e = max (ilog2 \<bar>x\<bar> - 52) (- 1074)"
  have p: "0 < pow2 e" by (rule pow2_pos)
  have f: "fl x = of_int (rne (x / pow2 e)) * pow2 e"
    using True by (simp add: fl_def Let_def e_def)
  have "pow2 (ilog2 \<bar>x\<bar>) \<le> pow2 0"
    using ilog2_bounds(1)[of "\<bar>x\<bar>"] True assms by (simp add: pow2_def)
  then have "ilog2 \<bar>x\<bar> \<le> 0" by (simp only: pow2_le_iff)
  then have e: "e \<le> 0" by (simp add: e_def)
  have inv: "pow2 (- e) * pow2 e = 1"
    using pow2_add[of "- e" e] by (simp add: pow2_def)
  have "x / pow2 e \<le> 1 / pow2 e" using assms p by (simp add: divide_right_mono)
  also have "1 / pow2 e = pow2 (- e)" using inv p by (simp add: field_simps)
  also have "pow2 (- e) = real_of_int (2 ^ nat (- e))" using e by (simp add: pow2_def)
  finally have "rne (x / pow2 e) \<le> 2 ^ nat (- e)" by (rule rne_le)
  then have "real_of_int (rne (x / pow2 e)) \<le> real_of_int (2 ^ nat (- e))"
    by (simp only: of_int_le_iff)
  then have "real_of_int (rne (x / pow2 e)) \<le> pow2 (- e)" using e by (simp add: pow2_def)
  then have "of_int (rne (x / pow2 e)) * pow2 e \<le> pow2 (- e) * pow2 e"
    using p by (intro mult_right_mono) simp_all
  then show ?thesis by (simp add: f inv)
qed
section \<open>Properties of the colour conversions\<close>

text \<open>
  Claim C4, as stated: converting a colour to HSV and back reproduces every channel
  within 1. The three components of the HSV value are rounded to whole degrees and
  whole percent, and the way back multiplies those errors: (208, 254, 12) becomes
  (71, 95, 100) and comes back as (211, 255, 13), the red channel off by 3.
\<close>

theorem roundTrip_off_by_three:
  "roundTrip 208 254 12 = \<lparr>rgb_r = 211, rgb_g = 255, rgb_b = 13\<rparr> \<and>
   \<not> \<bar>rgb_r (roundTrip 208 254 12) - 208\<bar> \<le> 1"
proof -
  have a: "roundTrip 208 254 12 = \<lparr>rgb_r = 211, rgb_g = 255, rgb_b = 13\<rparr>"
    by code_simp
  show ?thesis by (simp add: a)
qed


text \<open>
  At a tie the rounding of the doubles decides. The hue of (0, 24, 1) is 122.5 degrees
  in exact arithmetic and rounds to 122 in the program, because the division by 255
  and the quotient have been rounded below it; and 90 percent saturation leaves 25 of
  255, not 26, because \<open>1 - 0.9\<close> is a double below 0.1.
\<close>

lemma rgbToHsv_tie: "rgbToHsv 0 24 1 = \<lparr>hsv_h = 122, hsv_s = 100, hsv_v = 9\<rparr>"
  by code_simp

lemma hsvToRgb_tie: "hsvToRgb 0 90 100 = \<lparr>rgb_r = 255, rgb_g = 25, rgb_b = 25\<rparr>"
  by code_simp

text \<open>
  The interpolation of \<open>hsvToRgb\<close> by weights, and the weights of the channels of a
  colour at its hue position.
\<close>

lemma weight_range:
  "0 \<le> weightR u \<and> weightR u \<le> 1" "0 \<le> weightG u \<and> weightG u \<le> 1"
  "0 \<le> weightB u \<and> weightB u \<le> 1"
  by (simp_all add: weightR_def weightG_def weightB_def)

lemma abs_max_diff: "\<bar>max a b - max c d\<bar> \<le> max \<bar>a - c\<bar> \<bar>b - d\<bar>" for a b c d :: real
  by (simp add: max_def abs_if)

lemma abs_min_diff: "\<bar>min a b - min c d\<bar> \<le> max \<bar>a - c\<bar> \<bar>b - d\<bar>" for a b c d :: real
  by (simp add: max_def min_def abs_if)

lemma weight_lipschitz:
  "\<bar>weightR u - weightR u'\<bar> \<le> \<bar>u - u'\<bar>"
  "\<bar>weightG u - weightG u'\<bar> \<le> \<bar>u - u'\<bar>"
  "\<bar>weightB u - weightB u'\<bar> \<le> \<bar>u - u'\<bar>"
proof -
  have clip: "\<bar>max 0 (min 1 x) - max 0 (min 1 y)\<bar> \<le> \<bar>x - y\<bar>" for x y :: real
    by (simp add: max_def min_def abs_if)
  have "\<bar>min (u - 1) (5 - u) - min (u' - 1) (5 - u')\<bar> \<le> \<bar>u - u'\<bar>"
    by (simp add: min_def abs_if)
  then show "\<bar>weightR u - weightR u'\<bar> \<le> \<bar>u - u'\<bar>"
    unfolding weightR_def using clip order_trans by blast
  have "\<bar>max (1 - u) (u - 3) - max (1 - u') (u' - 3)\<bar> \<le> \<bar>u - u'\<bar>"
    by (simp add: max_def abs_if)
  then show "\<bar>weightG u - weightG u'\<bar> \<le> \<bar>u - u'\<bar>"
    unfolding weightG_def using clip order_trans by blast
  have m: "\<bar>max (3 - u) (u - 5) - max (3 - u') (u' - 5)\<bar> \<le> \<bar>u - u'\<bar>"
    by (simp add: max_def abs_if)
  have "\<bar>min (u + 1) (max (3 - u) (u - 5)) - min (u' + 1) (max (3 - u') (u' - 5))\<bar>
          \<le> max \<bar>(u + 1) - (u' + 1)\<bar> \<bar>max (3 - u) (u - 5) - max (3 - u') (u' - 5)\<bar>"
    by (rule abs_min_diff)
  also have "\<dots> \<le> \<bar>u - u'\<bar>" using m by simp
  finally show "\<bar>weightB u - weightB u'\<bar> \<le> \<bar>u - u'\<bar>"
    unfolding weightB_def using clip order_trans by blast
qed

lemma weight_wrap:
  assumes "- 1 \<le> u" "u \<le> 0"
  shows "weightR (u + 6) = weightR u" "weightG (u + 6) = weightG u" "weightB (u + 6) = weightB u"
  using assms by (simp_all add: weightR_def weightG_def weightB_def max_def min_def)


lemma js_irem_sector: "0 \<le> i \<Longrightarrow> i < 6 \<Longrightarrow> js_irem i 6 = i"
  by (rule js_irem_small)

lemma sector_colours:
  fixes u s v :: real
  assumes "0 \<le> u" "u < 6"
  shows "(let i = \<lfloor>u\<rfloor>; f = u - of_int i; p = v * (1 - s); q = v * (1 - s * f);
              t = v * (1 - s * (1 - f)); k = js_irem i 6
          in if k = 0 then (v, t, p) else if k = 1 then (q, v, p) else if k = 2 then (p, v, t)
             else if k = 3 then (p, q, v) else if k = 4 then (t, p, v) else (v, p, q)) =
         (v * (1 - s * weightR u), v * (1 - s * weightG u), v * (1 - s * weightB u))"
proof -
  define i where "i = \<lfloor>u\<rfloor>"
  have i: "0 \<le> i" "i < 6" using assms by (simp_all add: i_def floor_less_iff)
  have k: "js_irem 0 6 = 0" "js_irem 1 6 = 1" "js_irem 2 6 = 2" "js_irem 3 6 = 3"
    "js_irem 4 6 = 4" "js_irem 5 6 = 5"
    by (simp_all add: js_irem_small)
  have lo: "of_int i \<le> u" and hi: "u < of_int i + 1" unfolding i_def by linarith+
  from i consider "i = 0" | "i = 1" | "i = 2" | "i = 3" | "i = 4" | "i = 5" by linarith
  then show ?thesis
  proof cases
    case 1
    then show ?thesis using lo hi
      by (simp add: Let_def i_def[symmetric] k weightR_def weightG_def weightB_def max_def min_def)
  next
    case 2
    then show ?thesis using lo hi
      by (simp add: Let_def i_def[symmetric] k weightR_def weightG_def weightB_def max_def min_def)
  next
    case 3
    then show ?thesis using lo hi
      by (simp add: Let_def i_def[symmetric] k weightR_def weightG_def weightB_def max_def min_def)
  next
    case 4
    then show ?thesis using lo hi
      by (simp add: Let_def i_def[symmetric] k weightR_def weightG_def weightB_def max_def min_def)
  next
    case 5
    then show ?thesis using lo hi
      by (simp add: Let_def i_def[symmetric] k weightR_def weightG_def weightB_def max_def min_def)
  next
    case 6
    then show ?thesis using lo hi
      by (simp add: Let_def i_def[symmetric] k weightR_def weightG_def weightB_def max_def min_def)
  qed
qed

lemma ratio_facts:
  fixes d n :: real
  assumes "0 < d" "0 \<le> n" "n \<le> d"
  shows "0 \<le> n / d" "n / d \<le> 1" "d * (n / d) = n"
  using assms by simp_all

text \<open>The weights on the six sixths of the hue circle, and before its start.\<close>

lemma weights_0_1:
  assumes "0 \<le> x" "x \<le> 1"
  shows "weightR x = 0" "weightG x = 1 - x" "weightB x = 1"
  using assms by (simp_all add: weightR_def weightG_def weightB_def max_def min_def)

lemma weights_m1_0:
  assumes "0 \<le> y" "y \<le> 1"
  shows "weightR (- y) = 0" "weightG (- y) = 1" "weightB (- y) = 1 - y"
  using assms by (simp_all add: weightR_def weightG_def weightB_def max_def min_def)

lemma weights_2_3:
  assumes "0 \<le> x" "x \<le> 1"
  shows "weightR (x + 2) = 1" "weightG (x + 2) = 0" "weightB (x + 2) = 1 - x"
  using assms by (simp_all add: weightR_def weightG_def weightB_def max_def min_def)

lemma weights_1_2:
  assumes "0 \<le> y" "y \<le> 1"
  shows "weightR (- y + 2) = 1 - y" "weightG (- y + 2) = 0" "weightB (- y + 2) = 1"
  using assms by (simp_all add: weightR_def weightG_def weightB_def max_def min_def)

lemma weights_4_5:
  assumes "0 \<le> x" "x \<le> 1"
  shows "weightR (x + 4) = 1 - x" "weightG (x + 4) = 1" "weightB (x + 4) = 0"
  using assms by (simp_all add: weightR_def weightG_def weightB_def max_def min_def)

lemma weights_3_4:
  assumes "0 \<le> y" "y \<le> 1"
  shows "weightR (- y + 4) = 1" "weightG (- y + 4) = 1 - y" "weightB (- y + 4) = 0"
  using assms by (simp_all add: weightR_def weightG_def weightB_def max_def min_def)


lemma hue_case:
  fixes M d x hi mid lo :: real
  assumes "0 \<le> x" "x \<le> 1" "d * x = mid - lo" "d = hi - lo" "M = hi"
  shows "hi = M - d * 0" "mid = M - d * (1 - x)" "lo = M - d * 1"
proof -
  have "d * (1 - x) = d - (mid - lo)"
    using assms(3) by (simp only: right_diff_distrib mult_1_right)
  then show "mid = M - d * (1 - x)" using assms(4,5) by simp
  show "hi = M - d * 0" "lo = M - d * 1" using assms(4,5) by simp_all
qed

lemma channels_from_hue_position:
  fixes r g b :: real
  defines "M \<equiv> max (max r g) b" and "d \<equiv> max (max r g) b - min (min r g) b"
  shows "- 1 \<le> huePosition r g b \<and> huePosition r g b \<le> 5 \<and>
         r = M - d * weightR (huePosition r g b) \<and>
         g = M - d * weightG (huePosition r g b) \<and>
         b = M - d * weightB (huePosition r g b)"
proof (cases "d = 0")
  case True
  have hp: "huePosition r g b =
      (if d \<noteq> 0 then (if M = r then (g - b) / d else if M = g then (b - r) / d + 2
                         else (r - g) / d + 4) else 0)"
    by (simp only: huePosition_def Let_def M_def d_def)
  from True have "r = M" "g = M" "b = M"
    unfolding M_def d_def by (auto simp: max_def min_def split: if_splits)
  then show ?thesis using True hp by simp
next
  case False
  have hp: "huePosition r g b =
      (if d \<noteq> 0 then (if M = r then (g - b) / d else if M = g then (b - r) / d + 2
                         else (r - g) / d + 4) else 0)"
    by (simp only: huePosition_def Let_def M_def d_def)
  have dpos: "0 < d" using False unfolding d_def by (auto simp: max_def min_def split: if_splits)
  consider (r1) "M = r" "b \<le> g"
    | (r2) "M = r" "g < b"
    | (g1) "M \<noteq> r" "M = g" "r \<le> b"
    | (g2) "M \<noteq> r" "M = g" "b < r"
    | (b1) "M \<noteq> r" "M \<noteq> g" "g \<le> r"
    | (b2) "M \<noteq> r" "M \<noteq> g" "r < g"
    by linarith
  then show ?thesis
  proof cases
    case r1
    then have Mhi: "M = r" unfolding M_def by (auto simp: max_def split: if_splits)
    have d: "d = r - b"
      using r1 unfolding d_def M_def by (auto simp: max_def min_def split: if_splits)
    have n: "0 \<le> g - b" "g - b \<le> d"
      using r1 Mhi unfolding d M_def by (auto simp: max_def split: if_splits)
    define x where "x = (g - b) / d"
    have x: "0 \<le> x" "x \<le> 1" "d * x = g - b"
      unfolding x_def using ratio_facts[OF dpos n] by blast+
    have u: "huePosition r g b = x"
      unfolding x_def using hp False r1(1) by simp
    have rng: "- 1 \<le> x \<and> x \<le> 5" using x(1,2) by simp
    show ?thesis
      unfolding u weights_0_1[OF x(1,2)] using rng hue_case[OF x d Mhi] by simp
  next
    case r2
    then have Mhi: "M = r" unfolding M_def by (auto simp: max_def split: if_splits)
    have d: "d = r - g"
      using r2 unfolding d_def M_def by (auto simp: max_def min_def split: if_splits)
    have n: "0 \<le> b - g" "b - g \<le> d"
      using r2 Mhi unfolding d M_def by (auto simp: max_def split: if_splits)
    define x where "x = (b - g) / d"
    have x: "0 \<le> x" "x \<le> 1" "d * x = b - g"
      unfolding x_def using ratio_facts[OF dpos n] by blast+
    have u: "huePosition r g b = - x"
      unfolding x_def using hp False r2(1) by (simp add: minus_divide_left)
    have rng: "- 1 \<le> - x \<and> - x \<le> 5" using x(1,2) by simp
    show ?thesis
      unfolding u weights_m1_0[OF x(1,2)] using rng hue_case[OF x d Mhi] by simp
  next
    case g1
    then have Mhi: "M = g" unfolding M_def by (auto simp: max_def split: if_splits)
    have d: "d = g - r"
      using g1 unfolding d_def M_def by (auto simp: max_def min_def split: if_splits)
    have n: "0 \<le> b - r" "b - r \<le> d"
      using g1 Mhi unfolding d M_def by (auto simp: max_def split: if_splits)
    define x where "x = (b - r) / d"
    have x: "0 \<le> x" "x \<le> 1" "d * x = b - r"
      unfolding x_def using ratio_facts[OF dpos n] by blast+
    have u: "huePosition r g b = x + 2"
      unfolding x_def using hp False g1(1,2) by simp
    have rng: "- 1 \<le> x + 2 \<and> x + 2 \<le> 5" using x(1,2) by simp
    show ?thesis
      unfolding u weights_2_3[OF x(1,2)] using rng hue_case[OF x d Mhi] by simp
  next
    case g2
    then have Mhi: "M = g" unfolding M_def by (auto simp: max_def split: if_splits)
    have d: "d = g - b"
      using g2 unfolding d_def M_def by (auto simp: max_def min_def split: if_splits)
    have n: "0 \<le> r - b" "r - b \<le> d"
      using g2 Mhi unfolding d M_def by (auto simp: max_def split: if_splits)
    define x where "x = (r - b) / d"
    have x: "0 \<le> x" "x \<le> 1" "d * x = r - b"
      unfolding x_def using ratio_facts[OF dpos n] by blast+
    have u: "huePosition r g b = - x + 2"
      unfolding x_def using hp False g2(1,2) by (simp add: minus_divide_left)
    have rng: "- 1 \<le> - x + 2 \<and> - x + 2 \<le> 5" using x(1,2) by simp
    show ?thesis
      unfolding u weights_1_2[OF x(1,2)] using rng hue_case[OF x d Mhi] by simp
  next
    case b1
    then have Mhi: "M = b" unfolding M_def by (auto simp: max_def split: if_splits)
    have d: "d = b - g"
      using b1 unfolding d_def M_def by (auto simp: max_def min_def split: if_splits)
    have n: "0 \<le> r - g" "r - g \<le> d"
      using b1 Mhi unfolding d M_def by (auto simp: max_def split: if_splits)
    define x where "x = (r - g) / d"
    have x: "0 \<le> x" "x \<le> 1" "d * x = r - g"
      unfolding x_def using ratio_facts[OF dpos n] by blast+
    have u: "huePosition r g b = x + 4"
      unfolding x_def using hp False b1(1,2) by simp
    have rng: "- 1 \<le> x + 4 \<and> x + 4 \<le> 5" using x(1,2) by simp
    show ?thesis
      unfolding u weights_4_5[OF x(1,2)] using rng hue_case[OF x d Mhi] by simp
  next
    case b2
    then have Mhi: "M = b" unfolding M_def by (auto simp: max_def split: if_splits)
    have d: "d = b - r"
      using b2 unfolding d_def M_def by (auto simp: max_def min_def split: if_splits)
    have n: "0 \<le> g - r" "g - r \<le> d"
      using b2 Mhi unfolding d M_def by (auto simp: max_def split: if_splits)
    define x where "x = (g - r) / d"
    have x: "0 \<le> x" "x \<le> 1" "d * x = g - r"
      unfolding x_def using ratio_facts[OF dpos n] by blast+
    have u: "huePosition r g b = - x + 4"
      unfolding x_def using hp False b2(1,2) by (simp add: minus_divide_left)
    have rng: "- 1 \<le> - x + 4 \<and> - x + 4 \<le> 5" using x(1,2) by simp
    show ?thesis
      unfolding u weights_3_4[OF x(1,2)] using rng hue_case[OF x d Mhi] by simp
  qed
qed


lemma js_rem_small:
  assumes "- 6 < x" "x < 6"
  shows "js_rem x 6 = x"
proof -
  have "js_trunc (x / 6) = 0"
  proof (cases "0 \<le> x")
    case True
    then have "\<lfloor>x / 6\<rfloor> = 0" using assms by (intro floor_unique) simp_all
    then show ?thesis using True by (simp add: js_trunc_def)
  next
    case False
    then have "\<lceil>x / 6\<rceil> = 0" using assms by (intro ceiling_unique) simp_all
    then show ?thesis using False by (simp add: js_trunc_def)
  qed
  then show ?thesis by (simp add: js_rem_def)
qed

lemma Math_round_close: "\<bar>of_int (Math_round x) - x\<bar> \<le> 1 / 2"
  unfolding Math_round_def by linarith

lemma Math_round_range:
  assumes "of_int a \<le> x" "x \<le> of_int b"
  shows "a \<le> Math_round x \<and> Math_round x \<le> b"
  unfolding Math_round_def using assms by linarith

lemma round_within_three:
  fixes x :: real and c :: int
  assumes "\<bar>x - of_int c\<bar> < 7 / 2"
  shows "\<bar>Math_round x - c\<bar> \<le> 3"
  unfolding Math_round_def using assms by linarith


text \<open>
  Every operation on doubles of the two conversions has a result below 1024, so that it
  is within \<open>10^-13\<close> of the exact result; the bounds below follow these errors through
  the quotients, products and differences.
\<close>

lemma js_op_error:
  "\<bar>x + y\<bar> < 1024 \<Longrightarrow> \<bar>js_add x y - (x + y)\<bar> \<le> 1 / 10000000000000"
  "\<bar>x - y\<bar> < 1024 \<Longrightarrow> \<bar>js_sub x y - (x - y)\<bar> \<le> 1 / 10000000000000"
  "\<bar>x * y\<bar> < 1024 \<Longrightarrow> \<bar>js_mul x y - x * y\<bar> \<le> 1 / 10000000000000"
  "\<bar>x / y\<bar> < 1024 \<Longrightarrow> \<bar>js_div x y - x / y\<bar> \<le> 1 / 10000000000000"
  unfolding js_add_def js_sub_def js_mul_def js_div_def by (rule fl_error, assumption)+

lemma js_op_unit:
  "0 \<le> x - y \<Longrightarrow> x - y \<le> 1 \<Longrightarrow> 0 \<le> js_sub x y \<and> js_sub x y \<le> 1"
  "0 \<le> x * y \<Longrightarrow> x * y \<le> 1 \<Longrightarrow> 0 \<le> js_mul x y \<and> js_mul x y \<le> 1"
  "0 \<le> x / y \<Longrightarrow> x / y \<le> 1 \<Longrightarrow> 0 \<le> js_div x y \<and> js_div x y \<le> 1"
  unfolding js_sub_def js_mul_def js_div_def by (simp_all add: fl_nonneg fl_le_one)

lemma js_div_close:
  fixes n d n' d' :: real
  assumes d: "1 / 255 \<le> d" "d \<le> 1" and n: "\<bar>n\<bar> \<le> d"
    and n': "\<bar>n' - n\<bar> \<le> 3 / 10000000000000" and d': "\<bar>d' - d\<bar> \<le> 3 / 10000000000000"
  shows "\<bar>js_div n' d' - n / d\<bar> \<le> 1 / 1000000000"
proof -
  define q where "q = n / d"
  have dpos: "0 < d" using d(1) by linarith
  have q: "\<bar>q\<bar> \<le> 1" using n dpos by (simp add: q_def)
  have nq: "n = q * d" using dpos by (simp add: q_def)
  have d'lo: "1 / 256 \<le> d'" using d(1) d' by linarith
  then have d'pos: "0 < d'" by linarith
  have "n' - q * d' = (n' - n) - q * (d' - d)" by (simp add: nq algebra_simps)
  then have "\<bar>n' - q * d'\<bar> \<le> \<bar>n' - n\<bar> + \<bar>q\<bar> * \<bar>d' - d\<bar>"
    by (metis abs_mult abs_triangle_ineq4)
  also have "\<dots> \<le> 3 / 10000000000000 + 1 * (3 / 10000000000000)"
    using n' d' q by (intro add_mono mult_mono) simp_all
  finally have num: "\<bar>n' - q * d'\<bar> \<le> 6 / 10000000000000" by simp
  have "n' / d' - q = (n' - q * d') / d'" using d'pos by (simp add: field_simps)
  then have "\<bar>n' / d' - q\<bar> = \<bar>n' - q * d'\<bar> / d'" using d'pos by simp
  also have "\<dots> \<le> (6 / 10000000000000) / (1 / 256)"
    using num d'lo by (intro frac_le) simp_all
  finally have quo: "\<bar>n' / d' - q\<bar> \<le> 1536 / 10000000000000" by simp
  then have "\<bar>n' / d'\<bar> < 1024" using q by linarith
  then have "\<bar>js_div n' d' - n' / d'\<bar> \<le> 1 / 10000000000000" by (rule js_op_error)
  then show ?thesis using quo unfolding q_def by linarith
qed

lemma product_close:
  fixes v s w V S W a b :: real
  assumes "0 \<le> s" "s \<le> 1" "0 \<le> w" "w \<le> 1" "0 \<le> V" "V \<le> 1" "0 \<le> W" "W \<le> 1"
    and "\<bar>v - V\<bar> \<le> a" "\<bar>s - S\<bar> \<le> a" "\<bar>w - W\<bar> \<le> b"
  shows "\<bar>v * (1 - s * w) - V * (1 - S * W)\<bar> \<le> 2 * a + b"
proof -
  have a0: "0 \<le> a" using assms(9) by linarith
  have sw: "0 \<le> s * w" "s * w \<le> 1" using assms(1-4) by (simp_all add: mult_le_one)
  have split: "v * (1 - s * w) - V * (1 - S * W) =
      (v - V) * (1 - s * w) + V * ((S - s) * W + s * (W - w))"
    by (simp add: algebra_simps)
  have t1: "\<bar>(v - V) * (1 - s * w)\<bar> \<le> a"
  proof -
    have "\<bar>(v - V) * (1 - s * w)\<bar> \<le> a * 1"
      unfolding abs_mult using assms(9) sw a0 by (intro mult_mono) simp_all
    then show ?thesis by simp
  qed
  have t2: "\<bar>(S - s) * W\<bar> \<le> a"
  proof -
    have "\<bar>S - s\<bar> \<le> a" using assms(10) by linarith
    then have "\<bar>(S - s) * W\<bar> \<le> a * 1"
      unfolding abs_mult using assms(7,8) a0 by (intro mult_mono) simp_all
    then show ?thesis by simp
  qed
  have t3: "\<bar>s * (W - w)\<bar> \<le> b"
  proof -
    have "\<bar>W - w\<bar> \<le> b" using assms(11) by linarith
    then have "\<bar>s * (W - w)\<bar> \<le> 1 * b"
      unfolding abs_mult using assms(1,2) by (intro mult_mono) simp_all
    then show ?thesis by simp
  qed
  have t4: "\<bar>V * ((S - s) * W + s * (W - w))\<bar> \<le> a + b"
  proof -
    have "\<bar>(S - s) * W + s * (W - w)\<bar> \<le> a + b"
      using abs_triangle_ineq[of "(S - s) * W" "s * (W - w)"] t2 t3 by linarith
    then have "\<bar>V * ((S - s) * W + s * (W - w))\<bar> \<le> 1 * (a + b)"
      unfolding abs_mult using assms(5,6) by (intro mult_mono) simp_all
    then show ?thesis by simp
  qed
  show ?thesis
    unfolding split
    using abs_triangle_ineq[of "(v - V) * (1 - s * w)" "V * ((S - s) * W + s * (W - w))"] t1 t4
    by linarith
qed

lemma js_mul_close:
  fixes x y X Y a :: real
  assumes "0 \<le> x" "x \<le> 1" "0 \<le> Y" "Y \<le> 1" "\<bar>y - Y\<bar> \<le> a" "\<bar>x * y\<bar> < 1024"
  shows "\<bar>js_mul x y - x * Y\<bar> \<le> a + 1 / 10000000000000"
proof -
  have "\<bar>x * y - x * Y\<bar> = x * \<bar>y - Y\<bar>"
    using assms(1) by (simp add: abs_mult right_diff_distrib[symmetric])
  also have "\<dots> \<le> 1 * a" using assms(1,2,5) by (intro mult_mono) simp_all
  finally have "\<bar>x * y - x * Y\<bar> \<le> a" by simp
  then show ?thesis using js_op_error(3)[OF assms(6)] by linarith
qed

lemma channel_error_bound:
  fixes a M S S0 W W0 :: real
  assumes a: "\<bar>a\<bar> \<le> 255 / 200 + 3 / 1000000" and M: "0 \<le> M" "M \<le> 255"
    and S: "0 \<le> S" "S \<le> 1" "\<bar>S - S0\<bar> \<le> 1 / 200 + 1 / 1000000"
    and W: "0 \<le> W" "W \<le> 1" "0 \<le> W0" "W0 \<le> 1" "\<bar>W - W0\<bar> \<le> 1 / 120 + 1 / 1000000"
  shows "\<bar>(M + a) * (1 - S * W) - (M - M * S0 * W0)\<bar> \<le> 69 / 20"
proof -
  have split: "(M + a) * (1 - S * W) - (M - M * S0 * W0) =
                 a * (1 - S * W) + M * (S0 - S) * W0 + M * S * (W0 - W)"
    by (simp add: algebra_simps)
  have sw: "0 \<le> S * W" "S * W \<le> 1"
    using S(1,2) W(1,2) by (simp_all add: mult_le_one)
  have t1: "\<bar>a * (1 - S * W)\<bar> \<le> 255 / 200 * (1 - S * W) + 3 / 1000000"
  proof -
    have "\<bar>a * (1 - S * W)\<bar> = \<bar>a\<bar> * (1 - S * W)" using sw by (simp add: abs_mult)
    also have "\<dots> \<le> (255 / 200 + 3 / 1000000) * (1 - S * W)"
      using a sw by (intro mult_right_mono) simp_all
    also have "\<dots> = 255 / 200 * (1 - S * W) + 3 / 1000000 * (1 - S * W)"
      by (rule distrib_right)
    also have "\<dots> \<le> 255 / 200 * (1 - S * W) + 3 / 1000000 * 1"
      using sw by (intro add_left_mono mult_left_mono) simp_all
    finally show ?thesis by simp
  qed
  have t2: "\<bar>M * (S0 - S) * W0\<bar> \<le> 255 / 200 * W0 + 255 / 1000000"
  proof -
    have "\<bar>M * (S0 - S)\<bar> = M * \<bar>S0 - S\<bar>" using M(1) by (simp add: abs_mult)
    also have "\<dots> \<le> 255 * (1 / 200 + 1 / 1000000)"
    proof -
      have "\<bar>S0 - S\<bar> \<le> 1 / 200 + 1 / 1000000" using S(3) by linarith
      then show ?thesis using M by (intro mult_mono) simp_all
    qed
    finally have "\<bar>M * (S0 - S)\<bar> \<le> 255 * (1 / 200 + 1 / 1000000)" .
    then have "\<bar>M * (S0 - S)\<bar> * W0 \<le> 255 * (1 / 200 + 1 / 1000000) * W0"
      using W(3) by (intro mult_right_mono)
    also have "\<dots> = 255 / 200 * W0 + 255 / 1000000 * W0" by argo
    also have "\<dots> \<le> 255 / 200 * W0 + 255 / 1000000 * 1"
      using W(3,4) by (intro add_left_mono mult_left_mono) simp_all
    finally show ?thesis using W(3) by (simp add: abs_mult)
  qed
  have t3: "\<bar>M * S * (W0 - W)\<bar> \<le> 255 / 120 * S + 255 / 1000000"
  proof -
    have "\<bar>M * S * (W0 - W)\<bar> = M * S * \<bar>W0 - W\<bar>" using M(1) S(1) by (simp add: abs_mult)
    also have "\<dots> \<le> 255 * S * (1 / 120 + 1 / 1000000)"
    proof -
      have f1: "\<bar>W0 - W\<bar> \<le> 1 / 120 + 1 / 1000000" using W(5) by linarith
      have f2: "M * S \<le> 255 * S" using M S(1) by (intro mult_right_mono) simp_all
      have f3: "0 \<le> 255 * S" using S(1) by simp
      show ?thesis by (rule mult_mono[OF f2 f1 f3]) simp
    qed
    also have "\<dots> = 255 / 120 * S + 255 / 1000000 * S" by argo
    also have "\<dots> \<le> 255 / 120 * S + 255 / 1000000 * 1"
      using S(1,2) by (intro add_left_mono mult_left_mono) simp_all
    finally show ?thesis by simp
  qed
  have w0: "W0 \<le> W + (1 / 120 + 1 / 1000000)" using W(5) by linarith
  have lin: "W * (1 - S) = W - S * W" by (simp add: algebra_simps)
  have ws: "W * (1 - S) \<le> 1 - S"
    using W(1,2) S(2) by (intro mult_left_le_one_le) simp_all
  have "\<bar>(M + a) * (1 - S * W) - (M - M * S0 * W0)\<bar>
          \<le> \<bar>a * (1 - S * W)\<bar> + \<bar>M * (S0 - S) * W0\<bar> + \<bar>M * S * (W0 - W)\<bar>"
    unfolding split by linarith
  also have "\<dots> \<le> (255 / 200 * (1 - S * W) + 3 / 1000000) + (255 / 200 * W0 + 255 / 1000000) +
      (255 / 120 * S + 255 / 1000000)"
    using t1 t2 t3 by linarith
  also have "\<dots> \<le> (255 / 200 * (1 - S * W) + 3 / 1000000) +
      (255 / 200 * (W + (1 / 120 + 1 / 1000000)) + 255 / 1000000) + (255 / 120 * S + 255 / 1000000)"
    using w0 by simp
  also have "\<dots> = 255 / 200 * (1 + 1 / 120 + 1 / 1000000) + 513 / 1000000 +
      255 / 200 * (W * (1 - S)) + 255 / 120 * S"
    unfolding lin by argo
  also have "\<dots> \<le> 255 / 200 * (1 + 1 / 120 + 1 / 1000000) + 513 / 1000000 +
      255 / 200 * (1 - S) + 255 / 120 * S"
    using ws by simp
  also have "\<dots> \<le> 69 / 20" using S(2) by argo
  finally show ?thesis .
qed

lemma round_near_within_three:
  fixes y Y :: real and c :: int
  assumes "\<bar>Y - of_int c\<bar> \<le> 69 / 20" "\<bar>y - Y\<bar> \<le> 1 / 1000000"
  shows "\<bar>real_of_int (Math_round y) - of_int c\<bar> \<le> 3"
proof -
  have "\<bar>y - of_int c\<bar> < 7 / 2" using assms by linarith
  then have "\<bar>Math_round y - c\<bar> \<le> 3" by (rule round_within_three)
  then show ?thesis by linarith
qed

lemma unit_product:
  fixes x y :: real
  assumes "0 \<le> x" "x \<le> 1" "0 \<le> y" "y \<le> 1"
  shows "0 \<le> x * y" "x * y \<le> 1" "\<bar>x * y\<bar> < 1024"
proof -
  show a: "0 \<le> x * y" "x * y \<le> 1" using assms by (simp_all add: mult_le_one)
  then show "\<bar>x * y\<bar> < 1024" by linarith
qed

lemma pick_close:
  fixes v t p q te pe qe dl :: real
  assumes "\<bar>t - te\<bar> \<le> dl" "\<bar>p - pe\<bar> \<le> dl" "\<bar>q - qe\<bar> \<le> dl" "0 \<le> dl"
    and "(if k = (0::int) then (v, t, p) else if k = 1 then (q, v, p) else if k = 2 then (p, v, t)
          else if k = 3 then (p, q, v) else if k = 4 then (t, p, v) else (v, p, q)) = (cr, cg, cb)"
    and "(if k = 0 then (v, te, pe) else if k = 1 then (qe, v, pe) else if k = 2 then (pe, v, te)
          else if k = 3 then (pe, qe, v) else if k = 4 then (te, pe, v) else (v, pe, qe)) = (er, eg, eb)"
  shows "\<bar>cr - er\<bar> \<le> dl \<and> \<bar>cg - eg\<bar> \<le> dl \<and> \<bar>cb - eb\<bar> \<le> dl"
  using assms by (auto split: if_splits)

lemma channel_out_close:
  fixes c E T :: real
  assumes "\<bar>c - E\<bar> \<le> 5 / 10000000000000" "\<bar>E - T\<bar> \<le> 9 / 10000000000000" "0 \<le> E" "E \<le> 1"
  shows "\<bar>js_mul c 255 - T * 255\<bar> \<le> 1 / 1000000"
proof -
  have "\<bar>c * 255\<bar> < 1024" using assms(1,3,4) by linarith
  then have "\<bar>js_mul c 255 - c * 255\<bar> \<le> 1 / 10000000000000" by (rule js_op_error)
  then show ?thesis using assms(1,2) by linarith
qed

lemma byte_fraction:
  fixes n :: int and m :: real
  assumes "0 \<le> n" "real_of_int n \<le> m" "0 < m" "m < 1024"
  shows "0 \<le> js_div (of_int n) m" "js_div (of_int n) m \<le> 1"
    "\<bar>js_div (of_int n) m - of_int n / m\<bar> \<le> 1 / 10000000000000"
proof -
  have q: "0 \<le> real_of_int n / m" "real_of_int n / m \<le> 1" using assms by simp_all
  show "0 \<le> js_div (of_int n) m" "js_div (of_int n) m \<le> 1"
    using js_op_unit(3)[OF q] by simp_all
  have "\<bar>real_of_int n / m\<bar> < 1024" using q by linarith
  then show "\<bar>js_div (of_int n) m - of_int n / m\<bar> \<le> 1 / 10000000000000"
    by (rule js_op_error)
qed

lemma hsvToRgb_close:
  fixes H S V :: int
  assumes "0 \<le> H" "H < 360" "0 \<le> S" "S \<le> 100" "0 \<le> V" "V \<le> 100"
  shows "\<exists>yr yg yb.
           hsvToRgb (of_int H) (of_int S) (of_int V) =
             \<lparr>rgb_r = of_int (Math_round yr), rgb_g = of_int (Math_round yg),
              rgb_b = of_int (Math_round yb)\<rparr> \<and>
           \<bar>yr - of_int V / 100 * (1 - of_int S / 100 * weightR (of_int H / 60)) * 255\<bar>
             \<le> 1 / 1000000 \<and>
           \<bar>yg - of_int V / 100 * (1 - of_int S / 100 * weightG (of_int H / 60)) * 255\<bar>
             \<le> 1 / 1000000 \<and>
           \<bar>yb - of_int V / 100 * (1 - of_int S / 100 * weightB (of_int H / 60)) * 255\<bar>
             \<le> 1 / 1000000"
proof -
  define h where "h = js_div (of_int H) 360"
  define s where "s = js_div (of_int S) 100"
  define v where "v = js_div (of_int V) 100"
  have cl: "clamp 0 360 (of_int H) = of_int H" "clamp 0 100 (of_int S) = of_int S"
    "clamp 0 100 (of_int V) = of_int V"
    using assms by (simp_all add: clamp_def)
  have h: "0 \<le> h" "h \<le> 1" "\<bar>h - of_int H / 360\<bar> \<le> 1 / 10000000000000"
    unfolding h_def using assms(1,2) by (intro byte_fraction; simp)+
  have s: "0 \<le> s" "s \<le> 1" "\<bar>s - of_int S / 100\<bar> \<le> 1 / 10000000000000"
    unfolding s_def using assms(3,4) by (intro byte_fraction; simp)+
  have v: "0 \<le> v" "v \<le> 1" "\<bar>v - of_int V / 100\<bar> \<le> 1 / 10000000000000"
    unfolding v_def using assms(5,6) by (intro byte_fraction; simp)+
  have Sr: "0 \<le> real_of_int S / 100" "real_of_int S / 100 \<le> 1" using assms(3,4) by simp_all
  have Vr: "0 \<le> real_of_int V / 100" "real_of_int V / 100 \<le> 1" using assms(5,6) by simp_all
  show ?thesis
  proof (cases "S = 0")
    case True
    then have s0: "s = 0" by (simp add: s_def js_div_def fl_zero)
    have out: "hsvToRgb (of_int H) (of_int S) (of_int V) =
        \<lparr>rgb_r = of_int (Math_round (js_mul v 255)), rgb_g = of_int (Math_round (js_mul v 255)),
         rgb_b = of_int (Math_round (js_mul v 255))\<rparr>"
      unfolding hsvToRgb_def Let_def cl using s0[unfolded s_def] by (simp add: v_def)
    have "\<bar>js_mul v 255 - of_int V / 100 * 255\<bar> \<le> 1 / 1000000"
      by (rule channel_out_close[of v v]) (use v in simp_all)
    then have "\<bar>js_mul v 255 - of_int V / 100 * (1 - of_int S / 100 * W) * 255\<bar> \<le> 1 / 1000000"
      for W :: real
      using True by simp
    then show ?thesis using out by blast
  next
    case False
    then have "1 \<le> S" using assms(3) by simp
    then have "1 / 100 \<le> real_of_int S / 100" by simp
    then have snz: "s \<noteq> 0" using s(3) by linarith
    define h6 where "h6 = js_mul h 6"
    define i where "i = \<lfloor>h6\<rfloor>"
    define f0 where "f0 = h6 - of_int i"
    define f where "f = js_sub h6 (of_int i)"
    have "\<bar>h * 6\<bar> < 1024" using h(1,2) by linarith
    then have "\<bar>h6 - h * 6\<bar> \<le> 1 / 10000000000000" unfolding h6_def by (rule js_op_error)
    then have h6c: "\<bar>h6 - of_int H / 60\<bar> \<le> 7 / 10000000000000" using h(3) by linarith
    have h6lo: "0 \<le> h6" unfolding h6_def js_mul_def using h(1) by (intro fl_nonneg) simp
    have "real_of_int H \<le> 359" using assms(2) by simp
    then have h6hi: "h6 < 6" using h6c by linarith
    have f0: "0 \<le> f0" "f0 \<le> 1" unfolding f0_def i_def by linarith+
    have f: "0 \<le> f" "f \<le> 1" "\<bar>f - f0\<bar> \<le> 1 / 10000000000000"
    proof -
      show "0 \<le> f" "f \<le> 1" using js_op_unit(1)[of h6 "of_int i"] f0 by (simp_all add: f_def f0_def)
      have "\<bar>h6 - of_int i\<bar> < 1024" using f0 unfolding f0_def by linarith
      then show "\<bar>f - f0\<bar> \<le> 1 / 10000000000000" unfolding f_def f0_def by (rule js_op_error)
    qed
    define a1 where "a1 = js_sub 1 s"
    have a1: "0 \<le> a1" "a1 \<le> 1" "\<bar>a1 - (1 - s)\<bar> \<le> 1 / 10000000000000"
    proof -
      show "0 \<le> a1" "a1 \<le> 1" using js_op_unit(1)[of 1 s] s(1,2) by (simp_all add: a1_def)
      have "\<bar>1 - s\<bar> < 1024" using s(1,2) by linarith
      then show "\<bar>a1 - (1 - s)\<bar> \<le> 1 / 10000000000000" unfolding a1_def by (rule js_op_error)
    qed
    define p where "p = js_mul v a1"
    have p: "\<bar>p - v * (1 - s)\<bar> \<le> 5 / 10000000000000"
    proof -
      have "\<bar>v * a1\<bar> < 1024" by (rule unit_product(3)[OF v(1,2) a1(1,2)])
      then have "\<bar>js_mul v a1 - v * (1 - s)\<bar> \<le> 1 / 10000000000000 + 1 / 10000000000000"
        using v(1,2) s(1,2) a1(3) by (intro js_mul_close) simp_all
      then show ?thesis unfolding p_def by linarith
    qed
    define b1 where "b1 = js_mul s f"
    have sf0: "0 \<le> s * f0" "s * f0 \<le> 1" using s(1,2) f0 by (simp_all add: mult_le_one)
    have b1: "0 \<le> b1" "b1 \<le> 1" "\<bar>b1 - s * f0\<bar> \<le> 2 / 10000000000000"
    proof -
      have sf: "0 \<le> s * f" "s * f \<le> 1" using s(1,2) f(1,2) by (simp_all add: mult_le_one)
      show "0 \<le> b1" "b1 \<le> 1" using js_op_unit(2)[OF sf] by (simp_all add: b1_def)
      have "\<bar>s * f\<bar> < 1024" using sf by linarith
      then have "\<bar>js_mul s f - s * f0\<bar> \<le> 1 / 10000000000000 + 1 / 10000000000000"
        using s(1,2) f0 f(3) by (intro js_mul_close) simp_all
      then show "\<bar>b1 - s * f0\<bar> \<le> 2 / 10000000000000" unfolding b1_def by linarith
    qed
    define b2 where "b2 = js_sub 1 b1"
    have b2: "0 \<le> b2" "b2 \<le> 1" "\<bar>b2 - (1 - s * f0)\<bar> \<le> 3 / 10000000000000"
    proof -
      show "0 \<le> b2" "b2 \<le> 1" using js_op_unit(1)[of 1 b1] b1(1,2) by (simp_all add: b2_def)
      have "\<bar>1 - b1\<bar> < 1024" using b1(1,2) by linarith
      then have "\<bar>b2 - (1 - b1)\<bar> \<le> 1 / 10000000000000" unfolding b2_def by (rule js_op_error)
      then show "\<bar>b2 - (1 - s * f0)\<bar> \<le> 3 / 10000000000000" using b1(3) by linarith
    qed
    define q where "q = js_mul v b2"
    have q: "\<bar>q - v * (1 - s * f0)\<bar> \<le> 5 / 10000000000000"
    proof -
      have "\<bar>v * b2\<bar> < 1024" by (rule unit_product(3)[OF v(1,2) b2(1,2)])
      then have "\<bar>js_mul v b2 - v * (1 - s * f0)\<bar> \<le> 3 / 10000000000000 + 1 / 10000000000000"
        using v(1,2) sf0 b2(3) by (intro js_mul_close) simp_all
      then show ?thesis unfolding q_def by linarith
    qed
    define c1 where "c1 = js_sub 1 f"
    have c1: "0 \<le> c1" "c1 \<le> 1" "\<bar>c1 - (1 - f0)\<bar> \<le> 2 / 10000000000000"
    proof -
      show "0 \<le> c1" "c1 \<le> 1" using js_op_unit(1)[of 1 f] f(1,2) by (simp_all add: c1_def)
      have "\<bar>1 - f\<bar> < 1024" using f(1,2) by linarith
      then have "\<bar>c1 - (1 - f)\<bar> \<le> 1 / 10000000000000" unfolding c1_def by (rule js_op_error)
      then show "\<bar>c1 - (1 - f0)\<bar> \<le> 2 / 10000000000000" using f(3) by linarith
    qed
    define c2 where "c2 = js_mul s c1"
    have sg0: "0 \<le> s * (1 - f0)" "s * (1 - f0) \<le> 1" using s(1,2) f0 by (simp_all add: mult_le_one)
    have c2: "0 \<le> c2" "c2 \<le> 1" "\<bar>c2 - s * (1 - f0)\<bar> \<le> 3 / 10000000000000"
    proof -
      have sc: "0 \<le> s * c1" "s * c1 \<le> 1" using s(1,2) c1(1,2) by (simp_all add: mult_le_one)
      show "0 \<le> c2" "c2 \<le> 1" using js_op_unit(2)[OF sc] by (simp_all add: c2_def)
      have "\<bar>s * c1\<bar> < 1024" using sc by linarith
      then have "\<bar>js_mul s c1 - s * (1 - f0)\<bar> \<le> 2 / 10000000000000 + 1 / 10000000000000"
        using s(1,2) f0 c1(3) by (intro js_mul_close) simp_all
      then show "\<bar>c2 - s * (1 - f0)\<bar> \<le> 3 / 10000000000000" unfolding c2_def by linarith
    qed
    define c3 where "c3 = js_sub 1 c2"
    have c3: "0 \<le> c3" "c3 \<le> 1" "\<bar>c3 - (1 - s * (1 - f0))\<bar> \<le> 4 / 10000000000000"
    proof -
      show "0 \<le> c3" "c3 \<le> 1" using js_op_unit(1)[of 1 c2] c2(1,2) by (simp_all add: c3_def)
      have "\<bar>1 - c2\<bar> < 1024" using c2(1,2) by linarith
      then have "\<bar>c3 - (1 - c2)\<bar> \<le> 1 / 10000000000000" unfolding c3_def by (rule js_op_error)
      then show "\<bar>c3 - (1 - s * (1 - f0))\<bar> \<le> 4 / 10000000000000" using c2(3) by linarith
    qed
    define t where "t = js_mul v c3"
    have t: "\<bar>t - v * (1 - s * (1 - f0))\<bar> \<le> 5 / 10000000000000"
    proof -
      have "\<bar>v * c3\<bar> < 1024" by (rule unit_product(3)[OF v(1,2) c3(1,2)])
      then have "\<bar>js_mul v c3 - v * (1 - s * (1 - f0))\<bar> \<le> 4 / 10000000000000 + 1 / 10000000000000"
        using v(1,2) sg0 c3(3) by (intro js_mul_close) simp_all
      then show ?thesis unfolding t_def by linarith
    qed
    define k where "k = js_irem i 6"
    obtain cr cg cb where tup:
      "(if k = 0 then (v, t, p) else if k = 1 then (q, v, p) else if k = 2 then (p, v, t)
        else if k = 3 then (p, q, v) else if k = 4 then (t, p, v) else (v, p, q)) = (cr, cg, cb)"
      by (rule prod_cases3)
    have out: "hsvToRgb (of_int H) (of_int S) (of_int V) =
        \<lparr>rgb_r = of_int (Math_round (js_mul cr 255)), rgb_g = of_int (Math_round (js_mul cg 255)),
         rgb_b = of_int (Math_round (js_mul cb 255))\<rparr>"
    proof -
      have "hsvToRgb (of_int H) (of_int S) (of_int V) =
          (case (if k = 0 then (v, t, p) else if k = 1 then (q, v, p) else if k = 2 then (p, v, t)
                 else if k = 3 then (p, q, v) else if k = 4 then (t, p, v) else (v, p, q)) of
             (r, g, b) \<Rightarrow> \<lparr>rgb_r = of_int (Math_round (js_mul r 255)),
                           rgb_g = of_int (Math_round (js_mul g 255)),
                           rgb_b = of_int (Math_round (js_mul b 255))\<rparr>)"
        unfolding hsvToRgb_def Let_def cl k_def t_def c3_def c2_def c1_def q_def b2_def b1_def
          p_def a1_def f_def i_def h6_def
        using snz[unfolded s_def] by (simp add: s_def v_def h_def)
      then show ?thesis by (simp only: tup prod.case)
    qed
    have exact: "(if k = 0 then (v, v * (1 - s * (1 - f0)), v * (1 - s))
         else if k = 1 then (v * (1 - s * f0), v, v * (1 - s))
         else if k = 2 then (v * (1 - s), v, v * (1 - s * (1 - f0)))
         else if k = 3 then (v * (1 - s), v * (1 - s * f0), v)
         else if k = 4 then (v * (1 - s * (1 - f0)), v * (1 - s), v)
         else (v, v * (1 - s), v * (1 - s * f0))) =
        (v * (1 - s * weightR h6), v * (1 - s * weightG h6), v * (1 - s * weightB h6))"
      using sector_colours[OF h6lo h6hi, of v s]
      by (simp only: Let_def i_def[symmetric] f0_def[symmetric] k_def[symmetric])
    have near: "\<bar>cr - v * (1 - s * weightR h6)\<bar> \<le> 5 / 10000000000000 \<and>
        \<bar>cg - v * (1 - s * weightG h6)\<bar> \<le> 5 / 10000000000000 \<and>
        \<bar>cb - v * (1 - s * weightB h6)\<bar> \<le> 5 / 10000000000000"
      by (rule pick_close[OF t p q _ tup exact]) simp
    have chan: "\<bar>js_mul c 255 - of_int V / 100 * (1 - of_int S / 100 * W) * 255\<bar> \<le> 1 / 1000000"
      if c: "\<bar>c - v * (1 - s * w)\<bar> \<le> 5 / 10000000000000" and w: "0 \<le> w" "w \<le> 1"
        and W: "0 \<le> W" "W \<le> 1" "\<bar>w - W\<bar> \<le> 7 / 10000000000000"
      for c w W :: real
    proof -
      have sw: "0 \<le> s * w" "s * w \<le> 1" using s(1,2) w by (simp_all add: mult_le_one)
      have E: "0 \<le> v * (1 - s * w)" "v * (1 - s * w) \<le> 1"
        using v(1,2) sw by (simp_all add: mult_le_one)
      have "\<bar>v * (1 - s * w) - of_int V / 100 * (1 - of_int S / 100 * W)\<bar>
              \<le> 2 * (1 / 10000000000000) + 7 / 10000000000000"
        by (rule product_close[OF s(1,2) w Vr W(1,2) v(3) s(3) W(3)])
      then have "\<bar>v * (1 - s * w) - of_int V / 100 * (1 - of_int S / 100 * W)\<bar>
              \<le> 9 / 10000000000000"
        by linarith
      then show ?thesis by (rule channel_out_close[OF c _ E])
    qed
    have lip: "\<bar>weightR h6 - weightR (of_int H / 60)\<bar> \<le> 7 / 10000000000000"
      "\<bar>weightG h6 - weightG (of_int H / 60)\<bar> \<le> 7 / 10000000000000"
      "\<bar>weightB h6 - weightB (of_int H / 60)\<bar> \<le> 7 / 10000000000000"
      using weight_lipschitz[of h6 "of_int H / 60"] h6c by linarith+
    show ?thesis
      using out near chan[OF _ _ _ _ _ lip(1)] chan[OF _ _ _ _ _ lip(2)] chan[OF _ _ _ _ _ lip(3)]
        weight_range
      by blast
  qed
qed

lemma Math_round_near_range:
  assumes "of_int a - 1 / 4 \<le> x" "x \<le> of_int b + 1 / 4"
  shows "a \<le> Math_round x" "Math_round x \<le> b"
  unfolding Math_round_def using assms by linarith+

lemma Math_round_zero: "Math_round 0 = 0"
  by (simp add: Math_round_def)

lemma js_zero:
  "js_div 0 y = 0" "js_mul 0 y = 0" "js_sub x x = 0"
  by (simp_all add: js_div_def js_mul_def js_sub_def fl_zero)

lemma byte_ratio:
  fixes a :: int
  assumes "0 \<le> a" "a \<le> 255"
  shows "\<bar>js_div (of_int a) 255 - of_int a / 255\<bar> \<le> 1 / 10000000000000"
  using assms by (intro byte_fraction(3)) simp_all

lemma byte_ratio_less:
  fixes a b :: int
  assumes "0 \<le> a" "a \<le> 255" "0 \<le> b" "b \<le> 255" "a < b"
  shows "js_div (of_int a) 255 < js_div (of_int b) 255"
proof -
  have "real_of_int a + 1 \<le> real_of_int b" using assms(5) by linarith
  then have "real_of_int a / 255 + 1 / 255 \<le> real_of_int b / 255" by linarith
  then show ?thesis using byte_ratio[OF assms(1,2)] byte_ratio[OF assms(3,4)] by linarith
qed

lemma byte_ratio_le_iff:
  fixes a b :: int
  assumes "0 \<le> a" "a \<le> 255" "0 \<le> b" "b \<le> 255"
  shows "js_div (of_int a) 255 \<le> js_div (of_int b) 255 \<longleftrightarrow> a \<le> b"
proof (cases "a \<le> b")
  case True
  then have "a = b \<or> a < b" by linarith
  then show ?thesis using True byte_ratio_less[OF assms(1,2,3,4)] by auto
next
  case False
  then have "b < a" by simp
  then show ?thesis using False byte_ratio_less[OF assms(3,4,1,2)] by auto
qed

lemma max3_eq_iff:
  fixes x y z :: "'a::linorder"
  shows "max (max x y) z = x \<longleftrightarrow> y \<le> x \<and> z \<le> x"
    "max (max x y) z = y \<longleftrightarrow> x \<le> y \<and> z \<le> y"
  by (auto simp: max_def)

lemma max3_close:
  fixes a b c a' b' c' e :: real
  assumes "\<bar>a' - a\<bar> \<le> e" "\<bar>b' - b\<bar> \<le> e" "\<bar>c' - c\<bar> \<le> e"
  shows "\<bar>max (max a' b') c' - max (max a b) c\<bar> \<le> e"
    "\<bar>min (min a' b') c' - min (min a b) c\<bar> \<le> e"
  using assms by (auto simp: max_def min_def abs_le_iff)

lemma hue_quotient:
  fixes x y x' y' d d' :: real
  assumes d: "1 / 255 \<le> d" "d \<le> 1" "\<bar>d' - d\<bar> \<le> 3 / 10000000000000"
    and xy: "\<bar>x - y\<bar> \<le> d" "\<bar>x' - x\<bar> \<le> 1 / 10000000000000" "\<bar>y' - y\<bar> \<le> 1 / 10000000000000"
  shows "\<bar>js_div (js_sub x' y') d' - (x - y) / d\<bar> \<le> 1 / 1000000000"
proof -
  have "\<bar>x' - y'\<bar> < 1024" using xy d(2) by linarith
  then have "\<bar>js_sub x' y' - (x' - y')\<bar> \<le> 1 / 10000000000000" by (rule js_op_error)
  then have "\<bar>js_sub x' y' - (x - y)\<bar> \<le> 3 / 10000000000000" using xy(2,3) by linarith
  then show ?thesis by (rule js_div_close[OF d(1,2) xy(1) _ d(3)])
qed

lemma scaled_round:
  fixes x X :: real and c :: real
  assumes "\<bar>x - X\<bar> \<le> 2 / 1000000000" "\<bar>X\<bar> \<le> 5" "0 \<le> c" "c \<le> 100"
  shows "\<bar>js_mul x c - X * c\<bar> \<le> 1 / 1000000"
proof -
  have xb: "\<bar>x\<bar> \<le> 6" using assms(1,2) by linarith
  have "\<bar>x * c\<bar> = \<bar>x\<bar> * c" using assms(3) by (simp add: abs_mult)
  also have "\<dots> \<le> 6 * 100" using xb assms(3,4) by (intro mult_mono) simp_all
  finally have "\<bar>x * c\<bar> < 1024" by simp
  then have e: "\<bar>js_mul x c - x * c\<bar> \<le> 1 / 10000000000000" by (rule js_op_error)
  have "\<bar>x * c - X * c\<bar> = \<bar>x - X\<bar> * c"
    using assms(3) by (simp add: abs_mult left_diff_distrib[symmetric])
  also have "\<dots> \<le> 2 / 1000000000 * 100" using assms(1,3,4) by (intro mult_mono) simp_all
  finally have "\<bar>x * c - X * c\<bar> \<le> 2 / 10000000" by simp
  then show ?thesis using e by linarith
qed

lemma rgbToHsv_rounded:
  fixes r g b :: int
  assumes bytes: "0 \<le> r" "r \<le> 255" "0 \<le> g" "g \<le> 255" "0 \<le> b" "b \<le> 255"
  defines "R \<equiv> real_of_int r / 255" and "G \<equiv> real_of_int g / 255" and "B \<equiv> real_of_int b / 255"
  defines "mx \<equiv> max (max R G) B"
  defines "diff \<equiv> max (max R G) B - min (min R G) B"
  shows "\<exists>H S V h1.
           rgbToHsv (of_int r) (of_int g) (of_int b) =
             \<lparr>hsv_h = of_int H, hsv_s = of_int S, hsv_v = of_int V\<rparr> \<and>
           H = (if h1 < 0 then h1 + 360 else h1) \<and> - 60 \<le> h1 \<and> h1 \<le> 300 \<and>
           \<bar>of_int h1 - huePosition R G B * 60\<bar> \<le> 1 / 2 + 1 / 1000000 \<and>
           0 \<le> S \<and> S \<le> 100 \<and>
           \<bar>of_int S - (if mx = 0 then 0 else diff / mx) * 100\<bar> \<le> 1 / 2 + 1 / 1000000 \<and>
           0 \<le> V \<and> V \<le> 100 \<and> \<bar>of_int V - mx * 100\<bar> \<le> 1 / 2 + 1 / 1000000"
proof -
  define r' where "r' = js_div (of_int r) 255"
  define g' where "g' = js_div (of_int g) 255"
  define b' where "b' = js_div (of_int b) 255"
  define mx' where "mx' = max (max r' g') b'"
  define mn' where "mn' = min (min r' g') b'"
  define diff' where "diff' = js_sub mx' mn'"
  define s' where "s' = (if mx' = 0 then 0 else js_div diff' mx')"
  define h' where "h' = (if diff' \<noteq> 0 then
                 (if mx' = r' then js_rem (js_div (js_sub g' b') diff') 6
                  else if mx' = g' then js_add (js_div (js_sub b' r') diff') 2
                  else js_add (js_div (js_sub r' g') diff') 4)
               else 0)"
  define h1 where "h1 = Math_round (js_mul h' 60)"
  define S where "S = Math_round (js_mul s' 100)"
  define V where "V = Math_round (js_mul mx' 100)"
  define mn where "mn = min (min R G) B"
  define u0 where "u0 = huePosition R G B"
  define M where "M = max (max r g) b"
  define m where "m = min (min r g) b"
  have code: "rgbToHsv (of_int r) (of_int g) (of_int b) =
      \<lparr>hsv_h = of_int (if h1 < 0 then h1 + 360 else h1), hsv_s = of_int S, hsv_v = of_int V\<rparr>"
    unfolding rgbToHsv_def Let_def h1_def S_def V_def h'_def s'_def diff'_def mn'_def mx'_def
      r'_def g'_def b'_def
    by (rule refl)
  have er: "\<bar>r' - R\<bar> \<le> 1 / 10000000000000"
    unfolding r'_def R_def by (rule byte_ratio[OF bytes(1,2)])
  have eg: "\<bar>g' - G\<bar> \<le> 1 / 10000000000000"
    unfolding g'_def G_def by (rule byte_ratio[OF bytes(3,4)])
  have eb: "\<bar>b' - B\<bar> \<le> 1 / 10000000000000"
    unfolding b'_def B_def by (rule byte_ratio[OF bytes(5,6)])
  have unit: "0 \<le> R" "R \<le> 1" "0 \<le> G" "G \<le> 1" "0 \<le> B" "B \<le> 1"
    using bytes by (simp_all add: R_def G_def B_def)
  have emx: "\<bar>mx' - mx\<bar> \<le> 1 / 10000000000000" and emn: "\<bar>mn' - mn\<bar> \<le> 1 / 10000000000000"
    unfolding mx'_def mx_def mn'_def mn_def using max3_close[OF er eg eb] by blast+
  have mxM: "mx = real_of_int M / 255" and mnm: "mn = real_of_int m / 255"
    unfolding mx_def mn_def M_def m_def R_def G_def B_def by (simp_all add: max_def min_def)
  have Mm: "0 \<le> m" "m \<le> M" "M \<le> 255"
    using bytes unfolding M_def m_def by (simp_all add: max_def min_def)
  have mx: "0 \<le> mx" "mx \<le> 1" using unit by (simp_all add: mx_def)
  have dm: "diff = mx - mn" by (simp add: diff_def mx_def mn_def)
  have dM: "diff = real_of_int (M - m) / 255" unfolding dm mxM mnm by (simp add: diff_divide_distrib)
  have diff: "0 \<le> diff" "diff \<le> mx" "diff \<le> 1"
    using unit unfolding diff_def mx_def by (auto simp: max_def min_def)
  have inr: "mn \<le> R" "R \<le> mx" "mn \<le> G" "G \<le> mx" "mn \<le> B" "B \<le> mx"
    unfolding mx_def mn_def by (auto simp: max_def min_def)
  have mn: "0 \<le> mn" "mn \<le> mx" using unit inr by (auto simp: mn_def min_def)
  have brR: "(mx' = r') = (mx = R)"
    unfolding mx'_def mx_def max3_eq_iff r'_def g'_def b'_def R_def G_def B_def
    using bytes by (simp add: byte_ratio_le_iff)
  have brG: "(mx' = g') = (mx = G)"
    unfolding mx'_def mx_def max3_eq_iff r'_def g'_def b'_def R_def G_def B_def
    using bytes by (simp add: byte_ratio_le_iff)
  have "\<bar>mx' - mn'\<bar> < 1024" using emx emn mx mn by linarith
  then have "\<bar>diff' - (mx' - mn')\<bar> \<le> 1 / 10000000000000"
    unfolding diff'_def by (rule js_op_error)
  then have ed: "\<bar>diff' - diff\<bar> \<le> 3 / 10000000000000" using emx emn dm by linarith
  have grey: "r' = g' \<and> g' = b'" if "diff = 0"
  proof -
    have "M = m" using that dM by simp
    then have "r = g \<and> g = b" unfolding M_def m_def by (auto simp: max_def min_def split: if_splits)
    then show ?thesis by (simp add: r'_def g'_def b'_def)
  qed
  have d0: "diff' = 0" if "diff = 0"
  proof -
    have "mx' = mn'" using grey[OF that] by (simp add: mx'_def mn'_def)
    then show ?thesis by (simp add: diff'_def js_zero)
  qed
  have dlo: "1 / 255 \<le> diff" if "diff \<noteq> 0"
  proof -
    have "M \<noteq> m" using that dM by auto
    then have "1 \<le> M - m" using Mm by linarith
    then have "1 \<le> real_of_int (M - m)" by linarith
    then show ?thesis unfolding dM by (simp add: divide_right_mono)
  qed
  have dnz: "diff' \<noteq> 0" if "diff \<noteq> 0" using dlo[OF that] ed by linarith
  have mxlo: "1 / 255 \<le> mx" if "mx \<noteq> 0"
  proof -
    have "M \<noteq> 0" using that mxM by auto
    then have "1 \<le> M" using Mm by linarith
    then have "1 \<le> real_of_int M" by linarith
    then show ?thesis unfolding mxM by (simp add: divide_right_mono)
  qed
  have mx0: "mx' = 0" if "mx = 0"
  proof -
    have "M = 0" using that mxM by simp
    then have "r = 0 \<and> g = 0 \<and> b = 0" using bytes unfolding M_def by (auto simp: max_def split: if_splits)
    then show ?thesis by (simp add: mx'_def r'_def g'_def b'_def js_zero)
  qed
  have mxnz: "mx' \<noteq> 0" if "mx \<noteq> 0" using mxlo[OF that] emx by linarith
  have V: "0 \<le> V" "V \<le> 100" "\<bar>of_int V - mx * 100\<bar> \<le> 1 / 2 + 1 / 1000000"
  proof -
    have c: "\<bar>js_mul mx' 100 - mx * 100\<bar> \<le> 1 / 1000000"
      by (rule scaled_round) (use emx mx in simp_all)
    show "0 \<le> V" "V \<le> 100"
      unfolding V_def using c mx by (intro Math_round_near_range[of 0 _ 100]; simp; linarith)+
    show "\<bar>of_int V - mx * 100\<bar> \<le> 1 / 2 + 1 / 1000000"
      unfolding V_def using c Math_round_close[of "js_mul mx' 100"] by linarith
  qed
  define S0 where "S0 = (if mx = 0 then 0 else diff / mx)"
  have S0: "0 \<le> S0" "S0 \<le> 1" using mx diff by (auto simp: S0_def)
  have es: "\<bar>s' - S0\<bar> \<le> 2 / 1000000000"
  proof (cases "mx = 0")
    case True
    then show ?thesis by (simp add: s'_def S0_def mx0)
  next
    case False
    have "\<bar>js_div diff' mx' - diff / mx\<bar> \<le> 1 / 1000000000"
      by (rule js_div_close[OF mxlo[OF False] mx(2)]) (use diff ed emx in simp_all)
    then show ?thesis using False mxnz[OF False] by (simp add: s'_def S0_def)
  qed
  have S: "0 \<le> S" "S \<le> 100" "\<bar>of_int S - S0 * 100\<bar> \<le> 1 / 2 + 1 / 1000000"
  proof -
    have c: "\<bar>js_mul s' 100 - S0 * 100\<bar> \<le> 1 / 1000000"
      by (rule scaled_round[OF es]) (use S0 in simp_all)
    show "0 \<le> S" "S \<le> 100"
      unfolding S_def using c S0 by (intro Math_round_near_range[of 0 _ 100]; simp; linarith)+
    show "\<bar>of_int S - S0 * 100\<bar> \<le> 1 / 2 + 1 / 1000000"
      unfolding S_def using c Math_round_close[of "js_mul s' 100"] by linarith
  qed
  have urng: "- 1 \<le> u0" "u0 \<le> 5"
    using channels_from_hue_position[of R G B] by (simp_all add: u0_def)
  have hp: "u0 = (if diff \<noteq> 0 then (if mx = R then (G - B) / diff
                                      else if mx = G then (B - R) / diff + 2
                                      else (R - G) / diff + 4) else 0)"
    by (simp only: u0_def huePosition_def Let_def mx_def diff_def)
  have eh: "\<bar>h' - u0\<bar> \<le> 2 / 1000000000"
  proof (cases "diff = 0")
    case True
    then show ?thesis by (simp add: h'_def hp d0)
  next
    case False
    note dl = dlo[OF False]
    have quo: "\<bar>js_div (js_sub x' y') diff' - (x - y) / diff\<bar> \<le> 1 / 1000000000"
      if "mn \<le> x" "x \<le> mx" "mn \<le> y" "y \<le> mx" "\<bar>x' - x\<bar> \<le> 1 / 10000000000000"
        "\<bar>y' - y\<bar> \<le> 1 / 10000000000000" for x y x' y' :: real
    proof -
      have "\<bar>x - y\<bar> \<le> diff" using that(1-4) dm by linarith
      then show ?thesis by (rule hue_quotient[OF dl diff(3) ed _ that(5,6)])
    qed
    consider (red) "mx = R" | (green) "mx \<noteq> R" "mx = G" | (blue) "mx \<noteq> R" "mx \<noteq> G" by blast
    then show ?thesis
    proof cases
      case red
      have u: "u0 = (G - B) / diff" using hp False red by simp
      have q: "\<bar>js_div (js_sub g' b') diff' - u0\<bar> \<le> 1 / 1000000000"
        unfolding u using inr eg eb by (intro quo) simp_all
      then have "- 6 < js_div (js_sub g' b') diff' \<and> js_div (js_sub g' b') diff' < 6"
        using urng by linarith
      then have "js_rem (js_div (js_sub g' b') diff') 6 = js_div (js_sub g' b') diff'"
        by (intro js_rem_small) simp_all
      then have "h' = js_div (js_sub g' b') diff'"
        using dnz[OF False] red brR by (simp add: h'_def)
      then show ?thesis using q by linarith
    next
      case green
      have u: "u0 = (B - R) / diff + 2" using hp False green by simp
      have q: "\<bar>js_div (js_sub b' r') diff' - (B - R) / diff\<bar> \<le> 1 / 1000000000"
        using inr eb er by (intro quo) simp_all
      then have "\<bar>js_div (js_sub b' r') diff' + 2\<bar> < 1024" using urng u by linarith
      then have "\<bar>js_add (js_div (js_sub b' r') diff') 2 - (js_div (js_sub b' r') diff' + 2)\<bar>
            \<le> 1 / 10000000000000"
        by (rule js_op_error)
      moreover have "h' = js_add (js_div (js_sub b' r') diff') 2"
        using dnz[OF False] green brR brG by (simp add: h'_def)
      ultimately show ?thesis using q u by linarith
    next
      case blue
      have u: "u0 = (R - G) / diff + 4" using hp False blue by simp
      have q: "\<bar>js_div (js_sub r' g') diff' - (R - G) / diff\<bar> \<le> 1 / 1000000000"
        using inr er eg by (intro quo) simp_all
      then have "\<bar>js_div (js_sub r' g') diff' + 4\<bar> < 1024" using urng u by linarith
      then have "\<bar>js_add (js_div (js_sub r' g') diff') 4 - (js_div (js_sub r' g') diff' + 4)\<bar>
            \<le> 1 / 10000000000000"
        by (rule js_op_error)
      moreover have "h' = js_add (js_div (js_sub r' g') diff') 4"
        using dnz[OF False] blue brR brG by (simp add: h'_def)
      ultimately show ?thesis using q u by linarith
    qed
  qed
  have h1: "- 60 \<le> h1" "h1 \<le> 300" "\<bar>of_int h1 - u0 * 60\<bar> \<le> 1 / 2 + 1 / 1000000"
  proof -
    have "\<bar>u0\<bar> \<le> 5" using urng by linarith
    then have c: "\<bar>js_mul h' 60 - u0 * 60\<bar> \<le> 1 / 1000000"
      by (intro scaled_round[OF eh]) simp_all
    show "- 60 \<le> h1" "h1 \<le> 300"
      unfolding h1_def using c urng by (intro Math_round_near_range[of "- 60" _ 300]; simp; linarith)+
    show "\<bar>of_int h1 - u0 * 60\<bar> \<le> 1 / 2 + 1 / 1000000"
      unfolding h1_def using c Math_round_close[of "js_mul h' 60"] by linarith
  qed
  show ?thesis
    using code h1 S V unfolding u0_def S0_def by blast
qed

text \<open>
  Claim C4, amended: for every (r, g, b) with each channel an integer from 0 to 255,
  \<open>hsvToRgb(rgbToHsv(r, g, b))\<close>, computed in doubles, reproduces the input within 3 on
  every channel. (The rounding of the value moves a channel by at most 1.275, that of
  the saturation by at most 1.275 and that of the hue by at most 2.125, never all in
  full together: the channel stays within 3.45 of the input before the last rounding,
  the roundings of the doubles adding less than \<open>10^-5\<close>.)
\<close>

theorem roundTrip_within_three:
  fixes r g b :: int
  assumes "0 \<le> r" "r \<le> 255" "0 \<le> g" "g \<le> 255" "0 \<le> b" "b \<le> 255"
  shows "\<bar>rgb_r (roundTrip (of_int r) (of_int g) (of_int b)) - of_int r\<bar> \<le> 3 \<and>
         \<bar>rgb_g (roundTrip (of_int r) (of_int g) (of_int b)) - of_int g\<bar> \<le> 3 \<and>
         \<bar>rgb_b (roundTrip (of_int r) (of_int g) (of_int b)) - of_int b\<bar> \<le> 3"
proof -
  define R G B where "R = real_of_int r / 255" and "G = real_of_int g / 255"
    and "B = real_of_int b / 255"
  define mx where "mx = max (max R G) B"
  define diff where "diff = mx - min (min R G) B"
  define S0 where "S0 = (if mx = 0 then 0 else diff / mx)"
  define u0 where "u0 = huePosition R G B"
  have unit: "0 \<le> R" "R \<le> 1" "0 \<le> G" "G \<le> 1" "0 \<le> B" "B \<le> 1"
    using assms by (simp_all add: R_def G_def B_def)
  have mx: "0 \<le> mx" "mx \<le> 1" using unit by (simp_all add: mx_def)
  have diff: "0 \<le> diff" "diff \<le> mx"
    using unit unfolding diff_def mx_def by (auto simp: max_def min_def)
  have S0: "0 \<le> S0" "S0 \<le> 1" "mx * S0 = diff"
    using mx diff by (auto simp: S0_def)
  obtain H S V h1 where hsv: "rgbToHsv (of_int r) (of_int g) (of_int b) =
      \<lparr>hsv_h = of_int H, hsv_s = of_int S, hsv_v = of_int V\<rparr>"
    and Hd: "H = (if h1 < 0 then h1 + 360 else h1)"
    and h1: "- 60 \<le> h1" "h1 \<le> 300" "\<bar>of_int h1 - u0 * 60\<bar> \<le> 1 / 2 + 1 / 1000000"
    and S: "0 \<le> S" "S \<le> 100" "\<bar>of_int S - S0 * 100\<bar> \<le> 1 / 2 + 1 / 1000000"
    and V: "0 \<le> V" "V \<le> 100" "\<bar>of_int V - mx * 100\<bar> \<le> 1 / 2 + 1 / 1000000"
    using rgbToHsv_rounded[OF assms]
    unfolding R_def[symmetric] G_def[symmetric] B_def[symmetric] mx_def[symmetric]
      diff_def[symmetric] S0_def[symmetric] u0_def[symmetric]
    by blast
  have rep: "- 1 \<le> u0" "u0 \<le> 5" "R = mx - diff * weightR u0" "G = mx - diff * weightG u0"
    "B = mx - diff * weightB u0"
    using channels_from_hue_position[of R G B]
    by (simp_all add: u0_def mx_def diff_def)
  have H: "0 \<le> H" "H < 360" using h1 by (simp_all add: Hd)
  define u where "u = real_of_int h1 / 60"
  have close: "\<bar>u - u0\<bar> \<le> 1 / 120 + 1 / 1000000" using h1(3) unfolding u_def by linarith
  have wrap: "weightR (of_int H / 60) = weightR u \<and> weightG (of_int H / 60) = weightG u \<and>
    weightB (of_int H / 60) = weightB u"
  proof (cases "h1 < 0")
    case True
    then have e: "real_of_int H / 60 = u + 6" by (simp add: Hd u_def)
    have ur: "- 1 \<le> u" "u \<le> 0" using True h1(1) by (simp_all add: u_def)
    show ?thesis unfolding e using weight_wrap[OF ur] by simp
  next
    case False
    then show ?thesis by (simp add: Hd u_def)
  qed
  obtain yr yg yb where out: "hsvToRgb (of_int H) (of_int S) (of_int V) =
      \<lparr>rgb_r = of_int (Math_round yr), rgb_g = of_int (Math_round yg),
       rgb_b = of_int (Math_round yb)\<rparr>"
    and yr: "\<bar>yr - of_int V / 100 * (1 - of_int S / 100 * weightR u) * 255\<bar> \<le> 1 / 1000000"
    and yg: "\<bar>yg - of_int V / 100 * (1 - of_int S / 100 * weightG u) * 255\<bar> \<le> 1 / 1000000"
    and yb: "\<bar>yb - of_int V / 100 * (1 - of_int S / 100 * weightB u) * 255\<bar> \<le> 1 / 1000000"
    using hsvToRgb_close[OF H S(1,2) V(1,2)] unfolding wrap[THEN conjunct1]
      wrap[THEN conjunct2, THEN conjunct1] wrap[THEN conjunct2, THEN conjunct2]
    by blast
  have chan: "\<bar>real_of_int (Math_round y) - of_int c\<bar> \<le> 3"
    if W: "0 \<le> W" "W \<le> 1" "0 \<le> W0" "W0 \<le> 1" "\<bar>W - W0\<bar> \<le> 1 / 120 + 1 / 1000000"
      and c: "real_of_int c / 255 = mx - diff * W0"
      and y: "\<bar>y - of_int V / 100 * (1 - of_int S / 100 * W) * 255\<bar> \<le> 1 / 1000000"
    for W W0 y :: real and c :: int
  proof -
    define M where "M = 255 * mx"
    define a where "a = 255 * (real_of_int V / 100) - M"
    have M: "0 \<le> M" "M \<le> 255" using mx by (simp_all add: M_def)
    have a: "\<bar>a\<bar> \<le> 255 / 200 + 3 / 1000000" using V(3) unfolding a_def M_def by linarith
    have Sr: "0 \<le> real_of_int S / 100" "real_of_int S / 100 \<le> 1"
      using S(1,2) by simp_all
    have Sc: "\<bar>real_of_int S / 100 - S0\<bar> \<le> 1 / 200 + 1 / 1000000" using S(3) by linarith
    have cin: "real_of_int c = M - M * S0 * W0"
    proof -
      have "real_of_int c = 255 * (mx - diff * W0)" using c by simp
      also have "\<dots> = 255 * mx - 255 * (mx * S0) * W0"
        by (simp only: S0(3) right_diff_distrib mult.assoc)
      finally show ?thesis by (simp add: M_def)
    qed
    have pre: "of_int V / 100 * (1 - of_int S / 100 * W) * 255 =
                 (M + a) * (1 - real_of_int S / 100 * W)"
      by (simp add: a_def)
    have "\<bar>(M + a) * (1 - real_of_int S / 100 * W) - (M - M * S0 * W0)\<bar> \<le> 69 / 20"
      by (rule channel_error_bound[OF a M Sr Sc W])
    then have "\<bar>of_int V / 100 * (1 - of_int S / 100 * W) * 255 - real_of_int c\<bar> \<le> 69 / 20"
      by (simp only: pre cin)
    then show ?thesis using y by (rule round_near_within_three)
  qed
  have wr: "\<bar>weightR u - weightR u0\<bar> \<le> 1 / 120 + 1 / 1000000"
    "\<bar>weightG u - weightG u0\<bar> \<le> 1 / 120 + 1 / 1000000"
    "\<bar>weightB u - weightB u0\<bar> \<le> 1 / 120 + 1 / 1000000"
    using weight_lipschitz[of u u0] close by linarith+
  have rt: "roundTrip (of_int r) (of_int g) (of_int b) =
      \<lparr>rgb_r = of_int (Math_round yr), rgb_g = of_int (Math_round yg),
       rgb_b = of_int (Math_round yb)\<rparr>"
    by (simp add: roundTrip_def Let_def hsv out)
  have cr: "real_of_int r / 255 = mx - diff * weightR u0"
    "real_of_int g / 255 = mx - diff * weightG u0"
    "real_of_int b / 255 = mx - diff * weightB u0"
    using rep(3,4,5) by (simp_all add: R_def G_def B_def)
  show ?thesis
    unfolding rt rgb.select_convs
    using chan[OF _ _ _ _ wr(1) cr(1) yr] chan[OF _ _ _ _ wr(2) cr(2) yg]
      chan[OF _ _ _ _ wr(3) cr(3) yb] weight_range
    by blast
qed

theorem roundTrip_within_three_witness:
  "(0::int) \<le> 0 \<and> (0::int) \<le> 255 \<and> (0::int) \<le> 7 \<and> (7::int) \<le> 255 \<and>
   (0::int) \<le> 254 \<and> (254::int) \<le> 255 \<and>
   \<bar>rgb_r (roundTrip 0 7 254) - 0\<bar> \<le> 3 \<and>
   \<bar>rgb_g (roundTrip 0 7 254) - 7\<bar> \<le> 3 \<and>
   \<bar>rgb_b (roundTrip 0 7 254) - 254\<bar> \<le> 3"
  using roundTrip_within_three[of 0 7 254] by simp
section \<open>Properties of the sound mapper\<close>

lemma powr_twelfth_pow: "(2 powr (real_of_int k / 12)) ^ 12 = 2 powr (real_of_int k)"
proof -
  have "(2 powr (real_of_int k / 12)) ^ 12 = 2 powr (real_of_int k / 12 * real 12)"
    by (simp only: powr_powr powr_realpow[symmetric] zero_less_numeral powr_gt_zero)
  then show ?thesis by simp
qed

lemma three_not_dvd_pow2: "\<not> (3::nat) dvd 2 ^ n"
proof
  assume "(3::nat) dvd 2 ^ n"
  moreover have "coprime (3::nat) (2 ^ n)" by simp
  ultimately have "is_unit (3::nat)" using coprime_common_divisor[of "3::nat" "2 ^ n" 3] by simp
  then show False by simp
qed

lemma four_thirds_not_pitch:
  assumes "0 \<le> k"
  shows "(200::real) \<noteq> 150 * 2 powr (real_of_int k / 12)"
proof
  assume eq: "(200::real) = 150 * 2 powr (real_of_int k / 12)"
  obtain n where k: "k = int n" using assms nonneg_int_cases by blast
  from eq have "2 powr (real_of_int k / 12) = 4 / 3" by simp
  then have "(2 powr (real_of_int k / 12)) ^ 12 = (4 / 3) ^ 12" by (simp only:)
  then have "2 powr (real_of_int k) = (4 / 3 :: real) ^ 12" by (simp only: powr_twelfth_pow)
  then have "(2::real) ^ n = (4 / 3) ^ 12" using k by (simp add: powr_realpow)
  then have "(3::real) ^ 12 * 2 ^ n = 4 ^ 12" by (simp add: power_divide)
  then have "real ((3::nat) ^ 12 * 2 ^ n) = real (2 ^ 24)" by simp
  then have "(3::nat) ^ 12 * 2 ^ n = 2 ^ 24" by (simp only: of_nat_eq_iff)
  moreover have "(3::nat) dvd 3 ^ 12 * 2 ^ n" by simp
  ultimately have "(3::nat) dvd 2 ^ 24" by (simp only:)
  then show False using three_not_dvd_pow2 by blast
qed

lemma pitch_150_not_200:
  assumes "0 \<le> oct" "0 \<le> semi"
  shows "scalePitch 150 oct semi \<noteq> 200"
  using four_thirds_not_pitch[of "oct * 12 + semi"] assms
  by (auto simp: scalePitch_def)

lemma scale_semitone_range:
  "map_of musicalScales nm = Some sc \<Longrightarrow> x \<in> set sc \<Longrightarrow> 0 \<le> x \<and> x \<le> 11"
  by (auto simp: musicalScales_def split: if_splits)

lemma scale_nonempty: "map_of musicalScales nm = Some sc \<Longrightarrow> sc \<noteq> []"
  by (auto simp: musicalScales_def split: if_splits)

lemma valid_scale_known:
  "validMapper m \<Longrightarrow> \<exists>sc. map_of musicalScales (currentScale m) = Some sc"
  by (auto simp: validMapper_def musicalScales_def)

lemma floor_scaled_range:
  assumes "0 \<le> hue" "hue < 360" "0 < n"
  shows "0 \<le> \<lfloor>hue / 360 * real n\<rfloor> \<and> \<lfloor>hue / 360 * real n\<rfloor> < int n"
proof -
  have nn: "0 \<le> hue / 360 * real n" using assms by simp
  have "hue / 360 < 1" using assms by simp
  then have "hue / 360 * real n < 1 * real n"
    using assms(3) by (intro mult_strict_right_mono) simp_all
  then have lt: "hue / 360 * real n < real_of_int (int n)" by simp
  show ?thesis using nn lt by (simp add: floor_less_iff)
qed

lemma scalePitch_220_window:
  assumes "0 \<le> oct" "oct \<le> 2" "0 \<le> semi" "semi \<le> 11"
  shows "200 \<le> scalePitch 220 oct semi \<and> scalePitch 220 oct semi \<le> 2000"
proof -
  let ?e = "real_of_int (oct * 12 + semi) / 12"
  have e0: "0 \<le> ?e" using assms by simp
  have e3: "?e \<le> 3" using assms by simp
  have "2 powr 0 \<le> (2::real) powr ?e" using e0 by (intro powr_mono) simp_all
  then have lo: "1 \<le> (2::real) powr ?e" by simp
  have "(2::real) powr ?e \<le> 2 powr 3" using e3 by (intro powr_mono) simp_all
  then have hi: "(2::real) powr ?e \<le> 8" by simp
  show ?thesis using lo hi by (simp add: scalePitch_def)
qed

lemma mapHueToFrequency_core:
  assumes "validMapper m" "0 \<le> hue" "hue < 360"
  shows "\<exists>octave semitone.
           octave \<in> {0, 1, 2} \<and> semitone \<in> set (scaleOf m) \<and>
           mapHueToFrequency m hue =
             Some (clamp 200 2000 (scalePitch (baseFrequency m) octave semitone)) \<and>
           200 \<le> clamp 200 2000 (scalePitch (baseFrequency m) octave semitone) \<and>
           clamp 200 2000 (scalePitch (baseFrequency m) octave semitone) \<le> 2000 \<and>
           (baseFrequency m = 220 \<longrightarrow>
              mapHueToFrequency m hue = Some (scalePitch 220 octave semitone) \<and>
              onScale 220 (scaleOf m) (scalePitch 220 octave semitone))"
proof -
  obtain sc where sc: "map_of musicalScales (currentScale m) = Some sc"
    using valid_scale_known[OF assms(1)] by blast
  have ne: "0 < length sc" using scale_nonempty[OF sc] by simp
  define idx where "idx = \<lfloor>hue / 360 * real (length sc)\<rfloor>"
  define oct where "oct = \<lfloor>hue / 360 * 3\<rfloor>"
  have idx: "0 \<le> idx \<and> idx < int (length sc)"
    unfolding idx_def using floor_scaled_range[OF assms(2,3) ne] .
  have oct3: "0 \<le> oct \<and> oct < int 3"
    unfolding oct_def using floor_scaled_range[OF assms(2,3), of 3] by simp
  define semi where "semi = sc ! nat idx"
  have semi_in: "semi \<in> set sc" unfolding semi_def using idx by (intro nth_mem) linarith
  have semi_rng: "0 \<le> semi \<and> semi \<le> 11" using scale_semitone_range[OF sc semi_in] .
  have lookup: "js_index sc (js_irem idx (int (length sc))) = Some semi"
    using idx by (simp add: js_irem_small js_index_def semi_def)
  have win: "frequencyRange_min m = 200" "frequencyRange_max m = 2000"
    using assms(1) by (simp_all add: validMapper_def)
  have res: "mapHueToFrequency m hue =
               Some (clamp 200 2000 (scalePitch (baseFrequency m) oct semi))"
    by (simp only: mapHueToFrequency_def Let_def sc option.case idx_def[symmetric] lookup
        oct_def[symmetric] win clamp_def)
  have octs: "oct \<in> {0, 1, 2}" using oct3 by auto
  have sof: "scaleOf m = sc" using sc by (simp add: scaleOf_def)
  have dflt: "clamp 200 2000 (scalePitch 220 oct semi) = scalePitch 220 oct semi"
    using scalePitch_220_window[of oct semi] oct3 semi_rng by (simp add: clamp_def)
  have ons: "onScale 220 sc (scalePitch 220 oct semi)"
    using octs semi_in by (auto simp: onScale_def list_ex_iff)
  have "200 \<le> clamp 200 2000 (scalePitch (baseFrequency m) oct semi)"
       "clamp 200 2000 (scalePitch (baseFrequency m) oct semi) \<le> 2000"
    by (simp_all add: clamp_def)
  with octs semi_in res sof dflt ons show ?thesis
    by (intro exI[of _ oct] exI[of _ semi]) auto
qed

text \<open>
  Claim C3, as stated: for every hue in [0, 360) and every valid configuration the
  frequency lies in the window and is a pitch of the active scale. It fails after
  \<open>setBaseFrequency(150)\<close> at hue 0: the pitch is 150 Hz, the clamp returns 200 Hz,
  and 200 Hz is no pitch of the pentatonic scale over 150 Hz.
\<close>

theorem base_150_hue_0_off_scale:
  "validMapper (setBaseFrequency newHsvMapper 150) \<and>
   mapHueToFrequency (setBaseFrequency newHsvMapper 150) 0 = Some 200 \<and>
   \<not> onScale 150 [0, 2, 4, 7, 9] 200"
proof -
  have "\<not> onScale 150 [0, 2, 4, 7, 9] 200"
    using pitch_150_not_200 by (auto simp: onScale_def)
  moreover have "validMapper (setBaseFrequency newHsvMapper 150)"
    by (simp add: validMapper_def setBaseFrequency_def newHsvMapper_def musicalScales_def)
  moreover have "mapHueToFrequency (setBaseFrequency newHsvMapper 150) 0 = Some 200"
    by (simp add: setBaseFrequency_def mapHueToFrequency_def newHsvMapper_def musicalScales_def Let_def js_index_def js_irem_def js_trunc_def scalePitch_def)
  ultimately show ?thesis by blast
qed



text \<open>
  Claim C3, amended: for every hue in [0, 360) and every valid configuration,
  \<open>mapHueToFrequency\<close> returns the pitch \<open>base * 2^((12 * octave + semitone) / 12)\<close>
  of a semitone of the active scale and an octave 0, 1 or 2, clamped into the window
  200--2000 Hz; with the default base frequency 220 the clamp changes nothing and the
  result is a pitch of the scale.
\<close>

theorem mapHueToFrequency_clamped_scale_pitch:
  assumes "validMapper m" "0 \<le> hue" "hue < 360"
  shows "\<exists>octave semitone.
           octave \<in> {0, 1, 2} \<and> semitone \<in> set (scaleOf m) \<and>
           mapHueToFrequency m hue =
             Some (clamp 200 2000 (scalePitch (baseFrequency m) octave semitone)) \<and>
           200 \<le> clamp 200 2000 (scalePitch (baseFrequency m) octave semitone) \<and>
           clamp 200 2000 (scalePitch (baseFrequency m) octave semitone) \<le> 2000 \<and>
           (baseFrequency m = 220 \<longrightarrow>
              mapHueToFrequency m hue = Some (scalePitch 220 octave semitone) \<and>
              onScale 220 (scaleOf m) (scalePitch 220 octave semitone))"
  using assms by (rule mapHueToFrequency_core)

theorem mapHueToFrequency_clamped_scale_pitch_witness:
  "validMapper newHsvMapper \<and> (0::real) \<le> 100 \<and> (100::real) < 360 \<and>
   (\<exists>octave semitone.
      octave \<in> {0, 1, 2} \<and> semitone \<in> set (scaleOf newHsvMapper) \<and>
      mapHueToFrequency newHsvMapper 100 = Some (scalePitch 220 octave semitone))"
proof -
  have v: "validMapper newHsvMapper"
    by (simp add: validMapper_def newHsvMapper_def musicalScales_def)
  have b: "baseFrequency newHsvMapper = 220" by (simp add: newHsvMapper_def)
  show ?thesis
    using v mapHueToFrequency_clamped_scale_pitch[OF v, of 100] b by auto
qed


text \<open>
  Claim C10, as stated: the engine's own \<open>hsvToFrequency\<close> agrees with the mapper's
  \<open>mapHueToFrequency\<close>. At hue 0 the engine plays 200 Hz and the mapper gives 220 Hz.
\<close>

theorem engine_mapper_differ_at_hue_0:
  "hsvToFrequency 0 = 200 \<and> mapHueToFrequency newHsvMapper 0 = Some 220"
  by (simp add: hsvToFrequency_def mapHueToFrequency_def newHsvMapper_def musicalScales_def
      Let_def js_index_def js_irem_def js_trunc_def scalePitch_def)

text \<open>
  Claim C10, amended: for every hue in [0, 360) the frequency the engine plays is the
  linear interpolation \<open>200 + (hue / 360) * 1800\<close>, which lies in the same window
  200--2000 Hz as the mapper's frequency; it is not quantized to the scale.
\<close>

theorem engine_frequency_linear_in_window:
  assumes "validMapper m" "0 \<le> hue" "hue < 360"
  shows "hsvToFrequency hue = 200 + 5 * hue \<and>
         200 \<le> hsvToFrequency hue \<and> hsvToFrequency hue < 2000 \<and>
         (\<exists>f. mapHueToFrequency m hue = Some f \<and> 200 \<le> f \<and> f \<le> 2000)"
proof -
  have lin: "hsvToFrequency hue = 200 + 5 * hue" by (simp add: hsvToFrequency_def)
  obtain f where "mapHueToFrequency m hue = Some f" "200 \<le> f" "f \<le> 2000"
    using mapHueToFrequency_core[OF assms] by blast
  then show ?thesis using lin assms by auto
qed

theorem engine_frequency_linear_in_window_witness:
  "validMapper newHsvMapper \<and> (0::real) \<le> 180 \<and> (180::real) < 360 \<and>
   hsvToFrequency 180 = 1100 \<and>
   (\<exists>f. mapHueToFrequency newHsvMapper 180 = Some f \<and> 200 \<le> f \<and> f \<le> 2000)"
proof -
  have v: "validMapper newHsvMapper"
    by (simp add: validMapper_def newHsvMapper_def musicalScales_def)
  show ?thesis
    using v engine_frequency_linear_in_window[OF v, of 180] by auto
qed

text \<open>
  The frequency a voice is made with is \<open>hsvToFrequency\<close> of its hue: \<open>createSynth\<close>
  records it with the voice, and \<open>playNote\<close> and \<open>startScanSound\<close> trigger the synth at
  that frequency.
\<close>

lemma played_frequency:
  assumes "createSynth connectThrows e c ident = Inr (e', Some sy)"
  shows "map_of (synths e') ident =
           Some \<lparr>sd_synth = sy, sd_frequency = hsvToFrequency (hsv_h c),
                 sd_volume = hsvToVolume (hsv_v c), sd_hsv = c\<rparr>"
  using assms by (auto simp: createSynth_def Let_def update_Some_unfold split: if_splits)
section \<open>Properties of the voice pool\<close>

lemma synths_stopScanSound: "synths (stopScanSound e k) = AList.delete k (synths e)"
proof (cases "map_of (synths e) k")
  case None
  then have "k \<notin> fst ` set (synths e)" by (simp add: map_of_eq_None_iff)
  then show ?thesis using None by (simp add: stopScanSound_def)
next
  case (Some a)
  then show ?thesis by (simp add: stopScanSound_def cleanupSynth_def)
qed

lemma scanSounds_stopScanSound:
  "scanSounds (stopScanSound e k) = AList.delete k (scanSounds e)"
  by (simp add: stopScanSound_def cleanupSynth_def split: option.splits)

lemma stopScanSound_absent:
  assumes "k \<notin> liveKeys e"
  shows "stopScanSound e k = e"
proof -
  have a: "k \<notin> fst ` set (synths e)" and b: "k \<notin> fst ` set (scanSounds e)"
    using assms by (simp_all add: liveKeys_def)
  from a have "map_of (synths e) k = None" by (simp add: map_of_eq_None_iff)
  then show ?thesis using b by (simp add: stopScanSound_def)
qed

lemma liveKeys_stopScanSound: "k \<notin> liveKeys (stopScanSound e k)"
  by (simp add: liveKeys_def synths_stopScanSound scanSounds_stopScanSound delete_notin_dom)

lemma cleanupSynth_absent:
  "k \<notin> fst ` set (synths e) \<Longrightarrow> cleanupSynth e k = e"
  by (simp add: cleanupSynth_def map_of_eq_None_iff[THEN iffD2])

lemma synths_cleanupSynth: "synths (cleanupSynth e k) = AList.delete k (synths e)"
proof (cases "map_of (synths e) k")
  case None
  then have "k \<notin> fst ` set (synths e)" by (simp add: map_of_eq_None_iff)
  then show ?thesis using None by (simp add: cleanupSynth_def)
next
  case (Some a)
  then show ?thesis by (simp add: cleanupSynth_def)
qed

lemma scanSounds_cleanupSynth: "scanSounds (cleanupSynth e k) = scanSounds e"
  by (simp add: cleanupSynth_def split: option.splits)

lemma fold_stop_synths:
  "synths (fold (\<lambda>k e'. stopScanSound e' k) ks e) =
     filter (\<lambda>(k, _). k \<notin> set ks) (synths e)"
proof (induction ks arbitrary: e)
  case Nil
  then show ?case by simp
next
  case (Cons k ks)
  have "filter (\<lambda>(k', _). k' \<notin> set ks) (AList.delete k (synths e)) =
        filter (\<lambda>(k', _). k' \<notin> set (k # ks)) (synths e)"
    by (auto simp: AList.delete_eq intro!: filter_cong)
  then show ?case by (simp add: Cons.IH synths_stopScanSound)
qed

lemma samplePool_keys:
  "map fst (synths samplePool) = [NoteKey 0 0, CellKey 0 0]"
  "map fst (scanSounds samplePool) = [CellKey 0 0]"
  by (simp_all add: samplePool_def startScanSound_def playNote_def createSynth_def
      stopScanSound_def cleanupSynth_def setMode_def init_def newAudioEngine_def Let_def)

lemma samplePool_live:
  "fst ` set (synths samplePool) = {NoteKey 0 0, CellKey 0 0}"
  "fst ` set (scanSounds samplePool) = {CellKey 0 0}"
proof -
  have "set (map fst (synths samplePool)) = {NoteKey 0 0, CellKey 0 0}"
    by (simp only: samplePool_keys) simp
  then show "fst ` set (synths samplePool) = {NoteKey 0 0, CellKey 0 0}" by simp
  have "set (map fst (scanSounds samplePool)) = {CellKey 0 0}"
    by (simp only: samplePool_keys) simp
  then show "fst ` set (scanSounds samplePool) = {CellKey 0 0}" by simp
qed

text \<open>
  Claim C8: stopping a key that has no voice, stopping a key a second time, and a
  release that arrives after the timed clean-up of a transient voice all leave the
  pool as it is. (The operations have no failing branch: they return a state, never an
  error.) The key of a transient voice is never a key of \<open>scanSounds\<close>.
\<close>

theorem stop_is_idempotent_noop:
  "(k \<notin> liveKeys e \<longrightarrow> stopScanSound e k = e) \<and>
   stopScanSound (stopScanSound e k) k = stopScanSound e k \<and>
   cleanupSynth (cleanupSynth e k) k = cleanupSynth e k \<and>
   (k \<notin> fst ` set (scanSounds e) \<longrightarrow>
      stopScanSound (cleanupSynth e k) k = cleanupSynth e k)"
proof (intro conjI impI)
  assume "k \<notin> liveKeys e"
  then show "stopScanSound e k = e" by (rule stopScanSound_absent)
next
  show "stopScanSound (stopScanSound e k) k = stopScanSound e k"
    using liveKeys_stopScanSound by (rule stopScanSound_absent)
next
  have "k \<notin> fst ` set (synths (cleanupSynth e k))"
    by (simp add: synths_cleanupSynth delete_notin_dom)
  then show "cleanupSynth (cleanupSynth e k) k = cleanupSynth e k"
    by (rule cleanupSynth_absent)
next
  assume "k \<notin> fst ` set (scanSounds e)"
  then have "k \<notin> liveKeys (cleanupSynth e k)"
    by (simp add: liveKeys_def synths_cleanupSynth scanSounds_cleanupSynth delete_notin_dom)
  then show "stopScanSound (cleanupSynth e k) k = cleanupSynth e k"
    by (rule stopScanSound_absent)
qed

theorem stop_is_idempotent_noop_witness:
  "liveKeys samplePool = {NoteKey 0 0, CellKey 0 0} \<and>
   CellKey 2 0 \<notin> liveKeys samplePool \<and>
   stopScanSound samplePool (CellKey 2 0) = samplePool \<and>
   NoteKey 0 0 \<notin> fst ` set (scanSounds samplePool) \<and>
   stopScanSound (cleanupSynth samplePool (NoteKey 0 0)) (NoteKey 0 0) =
     cleanupSynth samplePool (NoteKey 0 0) \<and>
   stopScanSound (stopScanSound samplePool (CellKey 0 0)) (CellKey 0 0) =
     stopScanSound samplePool (CellKey 0 0)"
proof -
  have l: "liveKeys samplePool = {NoteKey 0 0, CellKey 0 0}"
    by (auto simp: liveKeys_def samplePool_live)
  have a: "CellKey 2 0 \<notin> liveKeys samplePool" by (simp add: l)
  have b: "NoteKey 0 0 \<notin> fst ` set (scanSounds samplePool)" by (simp add: samplePool_live)
  show ?thesis
    using l a b stop_is_idempotent_noop[of "CellKey 2 0" samplePool]
      stop_is_idempotent_noop[of "NoteKey 0 0" samplePool]
      stop_is_idempotent_noop[of "CellKey 0 0" samplePool]
    by blast
qed

text \<open>
  Claim C7, as stated: after \<open>stopAllScanSounds\<close> no voice is live, a transient
  \<open>playNote\<close> voice included. A note played just before is still in \<open>synths\<close>
  afterwards.
\<close>

theorem stopAll_leaves_note_counterexample:
  "\<not> isl (playNote True (init InitOk newAudioEngine) sampleHsv None 0 0) \<and>
   liveKeys (stopAllScanSounds
      (fst (projr (playNote True (init InitOk newAudioEngine) sampleHsv None 0 0)))) =
     {NoteKey 0 0}"
  by (simp add: playNote_def createSynth_def init_def newAudioEngine_def sampleHsv_def
      stopAllScanSounds_def liveKeys_def Let_def)


text \<open>
  Claim C7, amended: after \<open>stopAllScanSounds\<close> the map \<open>scanSounds\<close> is empty and
  no key it held is left in \<open>synths\<close>: every sustained scan voice is stopped. The other
  entries of \<open>synths\<close>, the transient \<open>playNote\<close> voices, are left as they are
  (each is removed by its own timer).
\<close>

theorem stopAllScanSounds_stops_scan_voices:
  "scanSounds (stopAllScanSounds e) = [] \<and>
   synths (stopAllScanSounds e) =
     filter (\<lambda>(k, _). k \<notin> fst ` set (scanSounds e)) (synths e)"
  by (simp add: stopAllScanSounds_def fold_stop_synths)




section \<open>Properties of the pixel grid\<close>

lemma canvas_dims_fillGridCell:
  "canvas_width (fillGridCell br sz cv gx gy col) = canvas_width cv"
  "canvas_height (fillGridCell br sz cv gx gy col) = canvas_height cv"
  by (simp_all add: fillGridCell_def strokeRect_def fillRect_def Let_def)

lemma canvas_dims_fold_row:
  "canvas_width (fold (\<lambda>gx c'. fillGridCell br sz c' gx gy (col gx)) xs c) = canvas_width c"
  "canvas_height (fold (\<lambda>gx c'. fillGridCell br sz c' gx gy (col gx)) xs c) = canvas_height c"
  by (induction xs arbitrary: c) (simp_all add: canvas_dims_fillGridCell)

lemma canvas_dims_paintCells:
  "canvas_width (paintCells br sz data w h gw gh cv) = canvas_width cv"
  "canvas_height (paintCells br sz data w h gw gh cv) = canvas_height cv"
proof -
  have "\<And>c. canvas_width (fold (\<lambda>gy c. fold (\<lambda>gx c'. fillGridCell br sz c' gx gy
            (calculateAverageColor data w h (gx * sz) (gy * sz) sz)) [0..<gw] c) ys c) = canvas_width c
          \<and> canvas_height (fold (\<lambda>gy c. fold (\<lambda>gx c'. fillGridCell br sz c' gx gy
            (calculateAverageColor data w h (gx * sz) (gy * sz) sz)) [0..<gw] c) ys c) = canvas_height c"
    for ys
    by (induction ys) (simp_all add: canvas_dims_fold_row)
  then show "canvas_width (paintCells br sz data w h gw gh cv) = canvas_width cv"
    "canvas_height (paintCells br sz data w h gw gh cv) = canvas_height cv"
    by (simp_all add: paintCells_def)
qed

lemma canvas_dims_drawnCanvas:
  "canvas_width (drawnCanvas br img) = 600" "canvas_height (drawnCanvas br img) = 500"
  by (simp_all add: drawnCanvas_def drawImage_def fillRect_def Let_def split: prod.splits)

lemma canvas_dims_pixelatedCanvas:
  "canvas_width (pixelatedCanvas br img sz) = 600" "canvas_height (pixelatedCanvas br img sz) = 500"
  by (simp_all add: pixelatedCanvas_def canvas_dims_paintCells canvas_dims_drawnCanvas)

lemma processImage_loaded:
  assumes "originalImage ip = Some img" "canvas ip = Some cv0"
  shows "pixelData (processImage br ip) =
           map (\<lambda>gy. map (\<lambda>gx. extractCell (getImageData (pixelatedCanvas br img (pixelSize ip)))
                                  600 500 (pixelSize ip) gx gy)
                          [0..<gridCount 600 (pixelSize ip)])
               [0..<gridCount 500 (pixelSize ip)]"
    and "pixelSize (processImage br ip) = pixelSize ip"
    and "originalImage (processImage br ip) = Some img"
  using assms
  by (simp_all add: processImage_def extractPixelData_def applyPixelation_def Let_def
      pixelatedCanvas_def canvas_dims_paintCells canvas_dims_drawnCanvas split: prod.splits)


lemma concat_map_nth4:
  assumes "i < length xs" "\<And>x. length (f x) = 4" "c < 4"
  shows "concat (map f xs) ! (i * 4 + c) = f (xs ! i) ! c"
  using assms(1)
proof (induction xs arbitrary: i)
  case Nil
  then show ?case by simp
next
  case (Cons a xs)
  show ?case
  proof (cases i)
    case 0
    then show ?thesis using assms(2,3) by (simp add: nth_append)
  next
    case (Suc j)
    then have "j < length xs" using Cons.prems by simp
    then have "concat (map f xs) ! (j * 4 + c) = f (xs ! j) ! c" by (rule Cons.IH)
    then show ?thesis using Suc assms(2) by (simp add: nth_append)
  qed
qed

lemma pixel_index_in_range:
  assumes "x < w" "y < h"
  shows "y * w + x < w * (h::nat)"
proof -
  have "y * w + x < y * w + w" using assms by simp
  also have "\<dots> = (Suc y) * w" by simp
  also have "\<dots> \<le> h * w" using assms by (intro mult_le_mono1) simp
  finally show ?thesis by (simp add: mult.commute)
qed

lemma getImageData_nth:
  assumes "x < canvas_width cv" "y < canvas_height cv" "c < 4"
  shows "getImageData cv ! ((y * canvas_width cv + x) * 4 + c) =
           (case canvas_px cv x y of (r, g, b) \<Rightarrow> [r, g, b, 255]) ! c"
proof -
  let ?w = "canvas_width cv"
  let ?i = "y * ?w + x"
  have i: "?i < length [0..<?w * canvas_height cv]"
    using pixel_index_in_range[OF assms(1,2)] by simp
  have len: "\<And>i. length (case canvas_px cv (i mod ?w) (i div ?w) of (r, g, b) \<Rightarrow> [r, g, b, 255]) = 4"
    by (simp split: prod.splits)
  have "getImageData cv ! (?i * 4 + c) =
          (case canvas_px cv ([0..<?w * canvas_height cv] ! ?i mod ?w)
                ([0..<?w * canvas_height cv] ! ?i div ?w) of (r, g, b) \<Rightarrow> [r, g, b, 255]) ! c"
    unfolding getImageData_def by (rule concat_map_nth4[OF i len assms(3)])
  moreover have "[0..<?w * canvas_height cv] ! ?i = ?i" using i by simp
  moreover have "?i mod ?w = x" "?i div ?w = y" using assms(1) by simp_all
  ultimately show ?thesis by simp
qed

lemma getImageData_channels:
  assumes "x < canvas_width cv" "y < canvas_height cv"
  shows "unat (getImageData cv ! ((y * canvas_width cv + x) * 4)) = red (canvas_px cv x y)"
    and "unat (getImageData cv ! ((y * canvas_width cv + x) * 4 + 1)) = green (canvas_px cv x y)"
    and "unat (getImageData cv ! ((y * canvas_width cv + x) * 4 + 2)) = blue (canvas_px cv x y)"
  using getImageData_nth[OF assms, of 0] getImageData_nth[OF assms, of 1]
    getImageData_nth[OF assms, of 2]
  by (simp_all add: red_def green_def blue_def split: prod.splits)

lemma fold_acc4:
  "fold (\<lambda>x (r, g, b, n). (r + fr x, g + fg x, b + fb x, n + 1)) xs (r0, g0, b0, n0) =
     (r0 + sum_list (map fr xs), g0 + sum_list (map fg xs), b0 + sum_list (map fb xs),
      n0 + length xs)"
  for fr fg fb :: "'a \<Rightarrow> nat" and n0 :: nat
  by (induction xs arbitrary: r0 g0 b0 n0) simp_all

lemma fold_fold_acc4:
  "fold (\<lambda>y acc. fold (\<lambda>x (r, g, b, n). (r + fr y x, g + fg y x, b + fb y x, n + 1)) xs acc)
        ys (r0, g0, b0, n0) =
     (r0 + sum_list (map (\<lambda>y. sum_list (map (fr y) xs)) ys),
      g0 + sum_list (map (\<lambda>y. sum_list (map (fg y) xs)) ys),
      b0 + sum_list (map (\<lambda>y. sum_list (map (fb y) xs)) ys),
      n0 + length ys * length xs)"
  for fr fg fb :: "'b \<Rightarrow> 'a \<Rightarrow> nat" and n0 :: nat
proof (induction ys arbitrary: r0 g0 b0 n0)
  case Nil
  then show ?case by simp
next
  case (Cons a ys)
  let ?F = "\<lambda>y acc. fold (\<lambda>x (r, g, b, n). (r + fr y x, g + fg y x, b + fb y x, n + 1)) xs acc"
  have "fold ?F (a # ys) (r0, g0, b0, n0) = fold ?F ys (?F a (r0, g0, b0, n0))"
    by (simp only: fold_simps o_apply)
  also have "?F a (r0, g0, b0, n0) =
      (r0 + sum_list (map (fr a) xs), g0 + sum_list (map (fg a) xs),
       b0 + sum_list (map (fb a) xs), n0 + length xs)"
    by (rule fold_acc4)
  also have "fold ?F ys (r0 + sum_list (map (fr a) xs), g0 + sum_list (map (fg a) xs),
       b0 + sum_list (map (fb a) xs), n0 + length xs) =
      (r0 + sum_list (map (fr a) xs) + sum_list (map (\<lambda>y. sum_list (map (fr y) xs)) ys),
       g0 + sum_list (map (fg a) xs) + sum_list (map (\<lambda>y. sum_list (map (fg y) xs)) ys),
       b0 + sum_list (map (fb a) xs) + sum_list (map (\<lambda>y. sum_list (map (fb y) xs)) ys),
       n0 + length xs + length ys * length xs)"
    by (rule Cons.IH)
  finally show ?case by (simp add: add.assoc)
qed

lemma sum_list_upt_block:
  assumes "\<And>x y. x < ex \<Longrightarrow> y < ey \<Longrightarrow> f y x = g x y"
  shows "sum_list (map (\<lambda>y. sum_list (map (f y) [sx..<ex])) [sy..<ey]) = blockSum g sx ex sy ey"
proof -
  have "sum_list (map (\<lambda>y. sum_list (map (f y) [sx..<ex])) [sy..<ey]) =
        (\<Sum>y = sy..<ey. \<Sum>x = sx..<ex. f y x)"
    by (simp add: interv_sum_list_conv_sum_set_nat)
  also have "\<dots> = (\<Sum>y = sy..<ey. \<Sum>x = sx..<ex. g x y)"
    using assms by (intro sum.cong refl) simp
  finally show ?thesis by (simp add: blockSum_def)
qed

lemma sumCell_blockSum:
  assumes "ex \<le> canvas_width cv" "ey \<le> canvas_height cv"
  shows "sumCell (getImageData cv) (canvas_width cv) sx ex sy ey =
           (blockSum (\<lambda>x y. red (canvas_px cv x y)) sx ex sy ey,
            blockSum (\<lambda>x y. green (canvas_px cv x y)) sx ex sy ey,
            blockSum (\<lambda>x y. blue (canvas_px cv x y)) sx ex sy ey,
            (ex - sx) * (ey - sy))"
proof -
  let ?d = "getImageData cv" and ?w = "canvas_width cv"
  have inr: "\<And>x y. x < ex \<Longrightarrow> y < ey \<Longrightarrow> x < ?w \<and> y < canvas_height cv"
    using assms by simp
  have r: "sum_list (map (\<lambda>y. sum_list (map (\<lambda>x. unat (?d ! ((y * ?w + x) * 4))) [sx..<ex])) [sy..<ey])
             = blockSum (\<lambda>x y. red (canvas_px cv x y)) sx ex sy ey"
    by (rule sum_list_upt_block) (use inr getImageData_channels(1) in blast)
  have g: "sum_list (map (\<lambda>y. sum_list (map (\<lambda>x. unat (?d ! ((y * ?w + x) * 4 + 1))) [sx..<ex])) [sy..<ey])
             = blockSum (\<lambda>x y. green (canvas_px cv x y)) sx ex sy ey"
    by (rule sum_list_upt_block) (use inr getImageData_channels(2) in blast)
  have b: "sum_list (map (\<lambda>y. sum_list (map (\<lambda>x. unat (?d ! ((y * ?w + x) * 4 + 2))) [sx..<ex])) [sy..<ey])
             = blockSum (\<lambda>x y. blue (canvas_px cv x y)) sx ex sy ey"
    by (rule sum_list_upt_block) (use inr getImageData_channels(3) in blast)
  have "sumCell ?d ?w sx ex sy ey =
          fold (\<lambda>y acc. fold (\<lambda>x (r, g, b, n).
                  (r + unat (?d ! ((y * ?w + x) * 4)), g + unat (?d ! ((y * ?w + x) * 4 + 1)),
                   b + unat (?d ! ((y * ?w + x) * 4 + 2)), n + 1)) [sx..<ex] acc)
               [sy..<ey] (0, 0, 0, 0)"
    by (simp only: sumCell_def Let_def)
  also have "\<dots> = (0 + sum_list (map (\<lambda>y. sum_list (map (\<lambda>x. unat (?d ! ((y * ?w + x) * 4))) [sx..<ex])) [sy..<ey]),
                   0 + sum_list (map (\<lambda>y. sum_list (map (\<lambda>x. unat (?d ! ((y * ?w + x) * 4 + 1))) [sx..<ex])) [sy..<ey]),
                   0 + sum_list (map (\<lambda>y. sum_list (map (\<lambda>x. unat (?d ! ((y * ?w + x) * 4 + 2))) [sx..<ex])) [sy..<ey]),
                   0 + length [sy..<ey] * length [sx..<ex])"
    by (rule fold_fold_acc4)
  finally have "sumCell ?d ?w sx ex sy ey =
       (0 + sum_list (map (\<lambda>y. sum_list (map (\<lambda>x. unat (?d ! ((y * ?w + x) * 4))) [sx..<ex])) [sy..<ey]),
        0 + sum_list (map (\<lambda>y. sum_list (map (\<lambda>x. unat (?d ! ((y * ?w + x) * 4 + 1))) [sx..<ex])) [sy..<ey]),
        0 + sum_list (map (\<lambda>y. sum_list (map (\<lambda>x. unat (?d ! ((y * ?w + x) * 4 + 2))) [sx..<ex])) [sy..<ey]),
        0 + length [sy..<ey] * length [sx..<ex])" .
  then have "sumCell ?d ?w sx ex sy ey =
           (blockSum (\<lambda>x y. red (canvas_px cv x y)) sx ex sy ey,
            blockSum (\<lambda>x y. green (canvas_px cv x y)) sx ex sy ey,
            blockSum (\<lambda>x y. blue (canvas_px cv x y)) sx ex sy ey,
            (ey - sy) * (ex - sx))"
    by (simp only: r g b add_0 length_upt)
  then show ?thesis by (simp only: mult.commute[of "ey - sy" "ex - sx"])
qed


lemma calculateAverageColor_meanColour:
  "calculateAverageColor (getImageData cv) (canvas_width cv) (canvas_height cv) sx sy sz =
     meanColour cv sx (min (sx + sz) (canvas_width cv)) sy (min (sy + sz) (canvas_height cv))"
  by (simp add: calculateAverageColor_def Let_def sumCell_blockSum meanColour_def blockMean_def)

lemma fillGridCell_untouched:
  "\<not> touches sz gx gy x y \<Longrightarrow>
     canvas_px (fillGridCell br sz cv gx gy col) x y = canvas_px cv x y"
  by (auto simp: fillGridCell_def strokeRect_def fillRect_def onOutline_def touches_def Let_def)

lemma fillGridCell_interior:
  "interior sz gx gy x y \<Longrightarrow>
     canvas_px (fillGridCell br sz cv gx gy col) x y = cssColour col"
  by (auto simp: fillGridCell_def strokeRect_def fillRect_def onOutline_def interior_def Let_def)

lemma cell_index_unique:
  assumes "g * sz + 1 \<le> x" "x + 2 \<le> g * sz + sz" "g' * sz \<le> x + 1" "x \<le> g' * sz + sz"
  shows "g' = (g::nat)"
proof (rule ccontr)
  assume "g' \<noteq> g"
  then consider "Suc g' \<le> g" | "Suc g \<le> g'" by linarith
  then show False
  proof cases
    case 1
    then have "Suc g' * sz \<le> g * sz" by (rule mult_le_mono1)
    then show False using assms by simp
  next
    case 2
    then have "Suc g * sz \<le> g' * sz" by (rule mult_le_mono1)
    then show False using assms by simp
  qed
qed

lemma interior_touches_same:
  assumes "interior sz gx gy x y" "touches sz gx' gy' x y"
  shows "gx' = gx \<and> gy' = gy"
  using assms cell_index_unique[of gx sz x gx'] cell_index_unique[of gy sz y gy']
  by (simp add: interior_def touches_def)

lemma paint_row_pixel:
  assumes "interior sz gx0 gy0 x y"
  shows "canvas_px (fold (\<lambda>gx c'. fillGridCell br sz c' gx gy (col gx)) xs c) x y =
           (if gy = gy0 \<and> gx0 \<in> set xs then cssColour (col gx0) else canvas_px c x y)"
proof (induction xs rule: rev_induct)
  case Nil
  then show ?case by simp
next
  case (snoc a xs)
  show ?case
  proof (cases "a = gx0 \<and> gy = gy0")
    case True
    then show ?thesis using assms by (simp add: fillGridCell_interior)
  next
    case False
    then have "\<not> touches sz a gy x y" using interior_touches_same[OF assms] by blast
    then show ?thesis using snoc False by (auto simp: fillGridCell_untouched)
  qed
qed

lemma paint_grid_pixel:
  assumes "interior sz gx0 gy0 x y"
  shows "canvas_px (fold (\<lambda>gy c. fold (\<lambda>gx c'. fillGridCell br sz c' gx gy (col gx gy)) xs c)
                         ys c0) x y =
           (if gy0 \<in> set ys \<and> gx0 \<in> set xs then cssColour (col gx0 gy0) else canvas_px c0 x y)"
proof (induction ys rule: rev_induct)
  case Nil
  then show ?case by simp
next
  case (snoc a ys)
  show ?case
    using snoc paint_row_pixel[OF assms, where col = "\<lambda>gx. col gx a" and gy = a]
    by auto
qed

lemma paintCells_pixel:
  assumes "interior sz gx gy x y" "gx < gw" "gy < gh"
  shows "canvas_px (paintCells br sz data w h gw gh cv) x y =
           cssColour (calculateAverageColor data w h (gx * sz) (gy * sz) sz)"
  unfolding paintCells_def
  using paint_grid_pixel[OF assms(1), where col = "\<lambda>gx gy. calculateAverageColor data w h (gx * sz) (gy * sz) sz"
      and xs = "[0..<gw]" and ys = "[0..<gh]"] assms(2,3)
  by simp


lemma byte_channels:
  "red c \<le> 255" "green c \<le> 255" "blue c \<le> 255"
proof -
  have "\<And>w :: 8 word. unat w \<le> 255"
  proof -
    fix w :: "8 word"
    have "unat w < 2 ^ LENGTH(8)" by (rule unsigned_less)
    then show "unat w \<le> 255" by simp
  qed
  then show "red c \<le> 255" "green c \<le> 255" "blue c \<le> 255"
    by (simp_all add: red_def green_def blue_def split: prod.splits)
qed

lemma blockSum_le:
  assumes "\<And>x y. f x y \<le> (255::nat)"
  shows "blockSum f x0 x1 y0 y1 \<le> 255 * ((x1 - x0) * (y1 - y0))"
proof -
  have "\<And>y. (\<Sum>x = x0..<x1. f x y) \<le> 255 * (x1 - x0)"
    using sum_bounded_above[of "{x0..<x1}" "\<lambda>x. f x _" 255] assms by (simp add: mult.commute)
  then have "blockSum f x0 x1 y0 y1 \<le> (\<Sum>y = y0..<y1. 255 * (x1 - x0))"
    unfolding blockSum_def by (intro sum_mono) simp
  then show ?thesis by (simp add: mult.commute mult.left_commute)
qed

lemma blockMean_byte:
  assumes "\<And>x y. f x y \<le> (255::nat)"
  shows "0 \<le> blockMean f x0 x1 y0 y1 \<and> blockMean f x0 x1 y0 y1 \<le> 255"
proof -
  define n where "n = (x1 - x0) * (y1 - y0)"
  define t where "t = blockSum f x0 x1 y0 y1"
  have le: "t \<le> 255 * n" unfolding t_def n_def by (rule blockSum_le[OF assms])
  have mean: "blockMean f x0 x1 y0 y1 = real t / real n"
    by (simp only: blockMean_def t_def n_def)
  have "real t / real n \<le> 255"
  proof (cases "n = 0")
    case True
    then show ?thesis by simp
  next
    case False
    have "real t \<le> real (255 * n)" using le by (simp only: of_nat_le_iff)
    then show ?thesis using False by (simp add: divide_le_eq)
  qed
  moreover have "0 \<le> real t / real n" by simp
  ultimately show ?thesis by (simp only: mean)
qed

lemma Math_round_byte:
  assumes "0 \<le> m" "m \<le> 255"
  shows "0 \<le> Math_round m \<and> Math_round m \<le> 255"
proof -
  have "Math_round m < 256" unfolding Math_round_def using assms by (simp add: floor_less_iff)
  moreover have "0 \<le> Math_round m" unfolding Math_round_def using assms by simp
  ultimately show ?thesis by simp
qed

lemma Math_round_of_int: "Math_round (of_int n) = n"
  by (simp add: Math_round_def)

lemma cssChannel_byte:
  assumes "0 \<le> n" "n \<le> 255"
  shows "real (unat (cssChannel (of_int n))) = of_int n"
proof -
  have "cssChannel (of_int n) = of_nat (nat n)"
    using assms by (simp add: cssChannel_def Math_round_of_int)
  moreover have "unat (of_nat (nat n) :: 8 word) = nat n"
  proof -
    have "nat n < 2 ^ LENGTH(8)" using assms by simp
    then show ?thesis by (rule of_nat_inverse[OF refl])
  qed
  ultimately show ?thesis using assms by simp
qed

lemma channel_cssColour:
  "red (cssColour c) = unat (cssChannel (rgb_r c))"
  "green (cssColour c) = unat (cssChannel (rgb_g c))"
  "blue (cssColour c) = unat (cssChannel (rgb_b c))"
  by (simp_all add: red_def green_def blue_def cssColour_def)

lemma rounded_mean_byte:
  assumes "\<And>x y. f x y \<le> (255::nat)"
  shows "real (unat (cssChannel (of_int (Math_round (blockMean f x0 x1 y0 y1))))) =
           of_int (Math_round (blockMean f x0 x1 y0 y1))"
proof -
  have "0 \<le> Math_round (blockMean f x0 x1 y0 y1) \<and> Math_round (blockMean f x0 x1 y0 y1) \<le> 255"
    using blockMean_byte[of f, OF assms] Math_round_byte by blast
  then show ?thesis using cssChannel_byte by blast
qed

lemma cssColour_meanColour:
  "real (red (cssColour (meanColour cv x0 x1 y0 y1))) = rgb_r (meanColour cv x0 x1 y0 y1)"
  "real (green (cssColour (meanColour cv x0 x1 y0 y1))) = rgb_g (meanColour cv x0 x1 y0 y1)"
  "real (blue (cssColour (meanColour cv x0 x1 y0 y1))) = rgb_b (meanColour cv x0 x1 y0 y1)"
  unfolding channel_cssColour meanColour_def rgb.select_convs
  by (rule rounded_mean_byte, rule byte_channels)+

lemma gridCount_cell_start:
  assumes "g < gridCount w sz" "0 < sz"
  shows "g * sz < w"
proof -
  have "int g < \<lceil>real w / real sz\<rceil>" using assms(1) by (simp add: gridCount_def)
  then have "real g < real w / real sz" by (simp add: less_ceiling_iff)
  then have "real g * real sz < real w" using assms(2) by (simp add: pos_less_divide_eq)
  then have "real (g * sz) < real w" by simp
  then show ?thesis by (simp only: of_nat_less_iff)
qed

lemma centre_interior:
  fixes g sz w :: nat
  assumes "3 \<le> sz" "g * sz + 2 \<le> w"
  shows "g * sz + 1 \<le> min (g * sz + sz div 2) (w - 1) \<and>
         min (g * sz + sz div 2) (w - 1) + 2 \<le> g * sz + sz \<and>
         min (g * sz + sz div 2) (w - 1) < w"
proof -
  have "1 \<le> sz div 2" "sz div 2 + 2 \<le> sz" using assms(1) by linarith+
  then show ?thesis using assms(2) by (auto simp: min_def)
qed

lemma pixelatedCanvas_centre:
  assumes "3 \<le> sz" "gx < gridCount 600 sz" "gy < gridCount 500 sz"
    "gx * sz + 2 \<le> 600" "gy * sz + 2 \<le> 500"
  shows "canvas_px (pixelatedCanvas br img sz)
            (min (gx * sz + sz div 2) (600 - 1)) (min (gy * sz + sz div 2) (500 - 1)) =
         cssColour (meanColour (drawnCanvas br img) (gx * sz) (min (gx * sz + sz) 600)
                      (gy * sz) (min (gy * sz + sz) 500))"
proof -
  have int: "interior sz gx gy (min (gx * sz + sz div 2) (600 - 1)) (min (gy * sz + sz div 2) (500 - 1))"
    using centre_interior[OF assms(1,4)] centre_interior[OF assms(1,5)]
    by (simp add: interior_def)
  have "calculateAverageColor (getImageData (drawnCanvas br img)) 600 500 (gx * sz) (gy * sz) sz =
          meanColour (drawnCanvas br img) (gx * sz) (min (gx * sz + sz) 600)
            (gy * sz) (min (gy * sz + sz) 500)"
    using calculateAverageColor_meanColour[of "drawnCanvas br img" "gx * sz" "gy * sz" sz]
    by (simp add: canvas_dims_drawnCanvas)
  then show ?thesis
    unfolding pixelatedCanvas_def using paintCells_pixel[OF int assms(2,3)] by simp
qed

lemma extractCell_pixelated:
  assumes "3 \<le> sz" "gx < gridCount 600 sz" "gy < gridCount 500 sz"
    "gx * sz + 2 \<le> 600" "gy * sz + 2 \<le> 500"
  shows "extractCell (getImageData (pixelatedCanvas br img sz)) 600 500 sz gx gy =
           \<lparr>cell_rgb = meanColour (drawnCanvas br img) (gx * sz) (min (gx * sz + sz) 600)
                         (gy * sz) (min (gy * sz + sz) 500),
            cell_hsv = rgbToHsv
              (rgb_r (meanColour (drawnCanvas br img) (gx * sz) (min (gx * sz + sz) 600)
                         (gy * sz) (min (gy * sz + sz) 500)))
              (rgb_g (meanColour (drawnCanvas br img) (gx * sz) (min (gx * sz + sz) 600)
                         (gy * sz) (min (gy * sz + sz) 500)))
              (rgb_b (meanColour (drawnCanvas br img) (gx * sz) (min (gx * sz + sz) 600)
                         (gy * sz) (min (gy * sz + sz) 500))),
            gridX = gx, gridY = gy, pixelX = gx * sz, pixelY = gy * sz\<rparr>"
proof -
  let ?cv = "pixelatedCanvas br img sz"
  let ?cx = "min (gx * sz + sz div 2) (600 - 1)" and ?cy = "min (gy * sz + sz div 2) (500 - 1)"
  let ?m = "meanColour (drawnCanvas br img) (gx * sz) (min (gx * sz + sz) 600)
              (gy * sz) (min (gy * sz + sz) 500)"
  have cx: "?cx < canvas_width ?cv" and cy: "?cy < canvas_height ?cv"
    by (simp_all add: canvas_dims_pixelatedCanvas)
  have px: "canvas_px ?cv ?cx ?cy = cssColour ?m" by (rule pixelatedCanvas_centre[OF assms])
  have r: "real (unat (getImageData ?cv ! ((?cy * 600 + ?cx) * 4))) = rgb_r ?m"
    using getImageData_channels(1)[OF cx cy] px
    by (simp only: canvas_dims_pixelatedCanvas cssColour_meanColour)
  have g: "real (unat (getImageData ?cv ! ((?cy * 600 + ?cx) * 4 + 1))) = rgb_g ?m"
    using getImageData_channels(2)[OF cx cy] px
    by (simp only: canvas_dims_pixelatedCanvas cssColour_meanColour)
  have b: "real (unat (getImageData ?cv ! ((?cy * 600 + ?cx) * 4 + 2))) = rgb_b ?m"
    using getImageData_channels(3)[OF cx cy] px
    by (simp only: canvas_dims_pixelatedCanvas cssColour_meanColour)
  show ?thesis
    unfolding extractCell_def Let_def r g b by simp
qed


lemma no_cell_ends_at_599:
  assumes "10 \<le> sz" "sz \<le> 100"
  shows "g * sz \<noteq> (599::nat)"
proof
  assume eq: "g * sz = 599"
  then have d: "sz dvd 599" by (metis dvd_triv_right)
  have mem: "sz \<in> set [10..<101]"
    using assms by (simp only: set_upt atLeastLessThan_iff) simp
  have "\<forall>k \<in> set [10..<101]. \<not> k dvd (599::nat)"
    by (simp add: upt_rec_numeral)
  then show False using mem d by blast
qed

lemma no_cell_ends_at_499:
  assumes "10 \<le> sz" "sz \<le> 100"
  shows "g * sz \<noteq> (499::nat)"
proof
  assume eq: "g * sz = 499"
  then have d: "sz dvd 499" by (metis dvd_triv_right)
  have mem: "sz \<in> set [10..<101]"
    using assms by (simp only: set_upt atLeastLessThan_iff) simp
  have "\<forall>k \<in> set [10..<101]. \<not> k dvd (499::nat)"
    by (simp add: upt_rec_numeral)
  then show False using mem d by blast
qed

lemma policy_cells_two_wide:
  assumes "10 \<le> sz" "sz \<le> 100"
  shows "gx < gridCount 600 sz \<Longrightarrow> gx * sz + 2 \<le> 600"
    and "gy < gridCount 500 sz \<Longrightarrow> gy * sz + 2 \<le> 500"
proof -
  have pos: "0 < sz" using assms by simp
  show "gx * sz + 2 \<le> 600" if "gx < gridCount 600 sz"
    using gridCount_cell_start[OF that pos] no_cell_ends_at_599[OF assms, of gx] by linarith
  show "gy * sz + 2 \<le> 500" if "gy < gridCount 500 sz"
    using gridCount_cell_start[OF that pos] no_cell_ends_at_499[OF assms, of gy] by linarith
qed

lemma processImage_cell:
  assumes "originalImage ip = Some img" "canvas ip = Some cv0"
    "gx < gridCount 600 (pixelSize ip)" "gy < gridCount 500 (pixelSize ip)"
  shows "pixelData (processImage br ip) ! gy ! gx =
           extractCell (getImageData (pixelatedCanvas br img (pixelSize ip))) 600 500
             (pixelSize ip) gx gy"
  using assms(3,4) by (simp add: processImage_loaded(1)[OF assms(1,2)])

lemma blockSum_const:
  assumes "\<And>x y. x0 \<le> x \<Longrightarrow> x < x1 \<Longrightarrow> y0 \<le> y \<Longrightarrow> y < y1 \<Longrightarrow> f x y = k"
  shows "blockSum f x0 x1 y0 y1 = k * ((x1 - x0) * (y1 - y0))"
proof -
  have "blockSum f x0 x1 y0 y1 = (\<Sum>y = y0..<y1. \<Sum>x = x0..<x1. k)"
    unfolding blockSum_def using assms by (intro sum.cong refl) simp
  then show ?thesis by (simp add: mult.commute mult.left_commute)
qed

lemma blockMean_const:
  assumes "\<And>x y. x0 \<le> x \<Longrightarrow> x < x1 \<Longrightarrow> y0 \<le> y \<Longrightarrow> y < y1 \<Longrightarrow> f x y = k"
    "x0 < x1" "y0 < y1"
  shows "blockMean f x0 x1 y0 y1 = real k"
proof -
  define n where "n = (x1 - x0) * (y1 - y0)"
  have "0 < n" using assms(2,3) by (simp add: n_def)
  moreover have "blockMean f x0 x1 y0 y1 = real (k * n) / real n"
    by (simp only: blockMean_def blockSum_const[of x0 x1 y0 y1 f k, OF assms(1)] n_def)
  ultimately show ?thesis by simp
qed

lemma meanColour_const:
  assumes "\<And>x y. x0 \<le> x \<Longrightarrow> x < x1 \<Longrightarrow> y0 \<le> y \<Longrightarrow> y < y1 \<Longrightarrow> canvas_px cv x y = c"
    "x0 < x1" "y0 < y1"
  shows "meanColour cv x0 x1 y0 y1 =
           \<lparr>rgb_r = real (red c), rgb_g = real (green c), rgb_b = real (blue c)\<rparr>"
proof -
  have r: "blockMean (\<lambda>x y. red (canvas_px cv x y)) x0 x1 y0 y1 = real (red c)"
    by (rule blockMean_const) (simp_all add: assms)
  have g: "blockMean (\<lambda>x y. green (canvas_px cv x y)) x0 x1 y0 y1 = real (green c)"
    by (rule blockMean_const) (simp_all add: assms)
  have b: "blockMean (\<lambda>x y. blue (canvas_px cv x y)) x0 x1 y0 y1 = real (blue c)"
    by (rule blockMean_const) (simp_all add: assms)
  have rnd: "\<And>k::nat. real_of_int (Math_round (real k)) = real k"
    using Math_round_of_int[of "int k" for k] by simp
  show ?thesis by (simp only: meanColour_def r g b rnd)
qed

lemma scaledSize_blackImage: "scaledSize blackImage = (500, 500)"
  by (simp add: scaledSize_def blackImage_def Let_def)

lemma drawnCanvas_black_margin:
  assumes "x < 50" "y < 500"
  shows "canvas_px (drawnCanvas br blackImage) x y = white"
  using assms
  by (simp add: drawnCanvas_def scaledSize_blackImage drawImage_def fillRect_def Let_def)

lemma loaded_fields:
  "originalImage (sampleProcessor sz) = Some blackImage"
  "canvas (sampleProcessor sz) = Some blankCanvas"
  "pixelSize (sampleProcessor sz) = sz"
  by (simp_all add: sampleProcessor_def)

lemma gridCount_values:
  "gridCount 600 50 = 12" "gridCount 500 50 = 10" "gridCount 100 50 = 2"
  "gridCount 600 60 = 10" "gridCount 500 60 = 9"
  "gridCount 600 100 = 6" "gridCount 500 100 = 5"
  by (simp_all add: gridCount_def)

lemma white_margin_mean:
  "meanColour (drawnCanvas br blackImage) 0 50 0 50 = \<lparr>rgb_r = 255, rgb_g = 255, rgb_b = 255\<rparr>"
proof -
  have "meanColour (drawnCanvas br blackImage) 0 50 0 50 =
          \<lparr>rgb_r = real (red white), rgb_g = real (green white), rgb_b = real (blue white)\<rparr>"
    by (rule meanColour_const) (simp_all add: drawnCanvas_black_margin)
  then show ?thesis by (simp add: white_def red_def green_def blue_def)
qed

lemma black_block_mean:
  "meanColour (imageAsCanvas blackImage) 0 50 0 50 = \<lparr>rgb_r = 0, rgb_g = 0, rgb_b = 0\<rparr>"
proof -
  have "meanColour (imageAsCanvas blackImage) 0 50 0 50 =
          \<lparr>rgb_r = real (red (0, 0, 0)), rgb_g = real (green (0, 0, 0)),
           rgb_b = real (blue (0, 0, 0))\<rparr>"
    by (rule meanColour_const) (simp_all add: imageAsCanvas_def blackImage_def)
  then show ?thesis by (simp add: red_def green_def blue_def)
qed

lemma rgbToHsv_white: "rgbToHsv 255 255 255 = \<lparr>hsv_h = 0, hsv_s = 0, hsv_v = 100\<rparr>"
  by code_simp

lemma rgbToHsv_black: "rgbToHsv 0 0 0 = \<lparr>hsv_h = 0, hsv_s = 0, hsv_v = 0\<rparr>"
  by code_simp

lemma loaded_top_left_cell:
  "pixelData (loadedProcessor 50) ! 0 ! 0 =
     \<lparr>cell_rgb = \<lparr>rgb_r = 255, rgb_g = 255, rgb_b = 255\<rparr>,
      cell_hsv = \<lparr>hsv_h = 0, hsv_s = 0, hsv_v = 100\<rparr>,
      gridX = 0, gridY = 0, pixelX = 0, pixelY = 0\<rparr>"
proof -
  have "pixelData (loadedProcessor 50) ! 0 ! 0 =
          extractCell (getImageData (pixelatedCanvas sampleBrowser blackImage 50)) 600 500 50 0 0"
    unfolding loadedProcessor_def
    using processImage_cell[where ip = "sampleProcessor 50" and br = sampleBrowser
        and gx = 0 and gy = 0, OF loaded_fields(1,2)]
    by (simp add: gridCount_values loaded_fields)
  also have "\<dots> = \<lparr>cell_rgb = \<lparr>rgb_r = 255, rgb_g = 255, rgb_b = 255\<rparr>,
      cell_hsv = \<lparr>hsv_h = 0, hsv_s = 0, hsv_v = 100\<rparr>,
      gridX = 0, gridY = 0, pixelX = 0, pixelY = 0\<rparr>"
    using extractCell_pixelated[of 50 0 0 sampleBrowser blackImage]
    by (simp add: gridCount_values white_margin_mean rgbToHsv_white)
  finally show ?thesis .
qed

text \<open>
  Claim C5, as stated: every cell reports the mean of the source pixels inside its
  bounds; for a 100 by 100 image at cell size 50, cell (0,0) is the average of the
  image's top-left block of 50 by 50 pixels. The cells partition the canvas of 600 by
  500 pixels, on which that image is drawn 500 pixels wide from column 50 on: cell
  (0,0) is the white margin, whatever the image. For a black image the cell reports
  white, and the image's top-left block averages to black.
\<close>

theorem top_left_cell_is_canvas_margin:
  "cell_rgb (pixelData (loadedProcessor 50) ! 0 ! 0) = \<lparr>rgb_r = 255, rgb_g = 255, rgb_b = 255\<rparr> \<and>
   cell_hsv (pixelData (loadedProcessor 50) ! 0 ! 0) = \<lparr>hsv_h = 0, hsv_s = 0, hsv_v = 100\<rparr> \<and>
   meanColour (imageAsCanvas blackImage) 0 50 0 50 = \<lparr>rgb_r = 0, rgb_g = 0, rgb_b = 0\<rparr> \<and>
   rgbToHsv 0 0 0 = \<lparr>hsv_h = 0, hsv_s = 0, hsv_v = 0\<rparr>"
  by (simp add: loaded_top_left_cell black_block_mean rgbToHsv_black)

text \<open>
  Claim C5, amended: for every processed image, every cell size from 10 to 100 and every
  cell of the grid, the cell's reported RGB is, channel by channel, the arithmetic mean
  (rounded to the nearest integer) of every pixel of the 600 by 500 canvas inside the
  cell's bounds, clipped to the canvas, where the canvas holds the image drawn scaled
  and centred on white; the cell's HSV is \<open>rgbToHsv\<close> of that colour. The single
  pixel \<open>extractPixelData\<close> samples at the cell's centre carries that mean, because the
  pixelation pass has filled the cell with it and the outline stroke does not reach the
  centre.
\<close>

theorem cell_colour_is_rounded_block_mean:
  assumes "originalImage ip = Some img" "canvas ip = Some cv0"
    "10 \<le> pixelSize ip" "pixelSize ip \<le> 100"
    "gx < gridCount 600 (pixelSize ip)" "gy < gridCount 500 (pixelSize ip)"
  shows "pixelData (processImage br ip) ! gy ! gx =
           \<lparr>cell_rgb = meanColour (drawnCanvas br img)
                         (gx * pixelSize ip) (min (gx * pixelSize ip + pixelSize ip) 600)
                         (gy * pixelSize ip) (min (gy * pixelSize ip + pixelSize ip) 500),
            cell_hsv = rgbToHsv
              (rgb_r (meanColour (drawnCanvas br img)
                         (gx * pixelSize ip) (min (gx * pixelSize ip + pixelSize ip) 600)
                         (gy * pixelSize ip) (min (gy * pixelSize ip + pixelSize ip) 500)))
              (rgb_g (meanColour (drawnCanvas br img)
                         (gx * pixelSize ip) (min (gx * pixelSize ip + pixelSize ip) 600)
                         (gy * pixelSize ip) (min (gy * pixelSize ip + pixelSize ip) 500)))
              (rgb_b (meanColour (drawnCanvas br img)
                         (gx * pixelSize ip) (min (gx * pixelSize ip + pixelSize ip) 600)
                         (gy * pixelSize ip) (min (gy * pixelSize ip + pixelSize ip) 500))),
            gridX = gx, gridY = gy, pixelX = gx * pixelSize ip, pixelY = gy * pixelSize ip\<rparr>"
proof -
  have three: "3 \<le> pixelSize ip" using assms(3) by simp
  show ?thesis
    unfolding processImage_cell[OF assms(1,2,5,6)]
    by (rule extractCell_pixelated[OF three assms(5,6)
          policy_cells_two_wide(1)[OF assms(3,4,5)] policy_cells_two_wide(2)[OF assms(3,4,6)]])
qed


theorem cell_colour_is_rounded_block_mean_witness:
  "originalImage (sampleProcessor 50) = Some blackImage \<and>
   canvas (sampleProcessor 50) = Some blankCanvas \<and>
   10 \<le> pixelSize (sampleProcessor 50) \<and> pixelSize (sampleProcessor 50) \<le> 100 \<and>
   0 < gridCount 600 (pixelSize (sampleProcessor 50)) \<and>
   0 < gridCount 500 (pixelSize (sampleProcessor 50)) \<and>
   pixelData (processImage sampleBrowser (sampleProcessor 50)) ! 0 ! 0 =
     \<lparr>cell_rgb = \<lparr>rgb_r = 255, rgb_g = 255, rgb_b = 255\<rparr>,
      cell_hsv = \<lparr>hsv_h = 0, hsv_s = 0, hsv_v = 100\<rparr>,
      gridX = 0, gridY = 0, pixelX = 0, pixelY = 0\<rparr>"
proof -
  have h: "10 \<le> pixelSize (sampleProcessor 50)" "pixelSize (sampleProcessor 50) \<le> 100"
    "0 < gridCount 600 (pixelSize (sampleProcessor 50))"
    "0 < gridCount 500 (pixelSize (sampleProcessor 50))"
    by (simp_all add: loaded_fields gridCount_values)
  show ?thesis
    using h cell_colour_is_rounded_block_mean[where ip = "sampleProcessor 50"
        and br = sampleBrowser and gx = 0 and gy = 0, OF loaded_fields(1,2) h]
    by (simp add: loaded_fields white_margin_mean rgbToHsv_white)
qed

lemma floor_index_in_grid:
  assumes "0 \<le> x" "x < real w" "0 < sz"
  shows "0 \<le> \<lfloor>x / real sz\<rfloor> \<and> nat \<lfloor>x / real sz\<rfloor> < gridCount w sz"
proof -
  have nn: "0 \<le> x / real sz" using assms by simp
  have "x / real sz < real w / real sz" using assms by (simp add: divide_strict_right_mono)
  also have "\<dots> \<le> of_int \<lceil>real w / real sz\<rceil>" by (rule le_of_int_ceiling)
  finally have lt: "\<lfloor>x / real sz\<rfloor> < \<lceil>real w / real sz\<rceil>" by (simp add: floor_less_iff)
  have f0: "0 \<le> \<lfloor>x / real sz\<rfloor>" using nn by simp
  then have "nat \<lfloor>x / real sz\<rfloor> < nat \<lceil>real w / real sz\<rceil>" using lt by linarith
  then show ?thesis using f0 by (simp only: gridCount_def simp_thms)
qed

lemma floor_cell_bounds:
  assumes "0 \<le> x" "0 < sz"
  shows "real (nat \<lfloor>x / real sz\<rfloor> * sz) \<le> x \<and> x < real (nat \<lfloor>x / real sz\<rfloor> * sz + sz)"
proof -
  have nn: "0 \<le> \<lfloor>x / real sz\<rfloor>" using assms by simp
  have pos: "0 < real sz" using assms by simp
  have "of_int \<lfloor>x / real sz\<rfloor> \<le> x / real sz" by (rule of_int_floor_le)
  then have lo: "of_int \<lfloor>x / real sz\<rfloor> * real sz \<le> x"
    by (simp only: pos_le_divide_eq[OF pos])
  have "x / real sz < of_int \<lfloor>x / real sz\<rfloor> + 1" by linarith
  then have hi: "x < (of_int \<lfloor>x / real sz\<rfloor> + 1) * real sz"
    by (simp only: pos_divide_less_eq[OF pos])
  have cast: "real (nat \<lfloor>x / real sz\<rfloor>) = of_int \<lfloor>x / real sz\<rfloor>" using nn by simp
  show ?thesis using lo hi by (simp add: cast algebra_simps)
qed

lemma containing_cell_index:
  assumes "real (g * sz) \<le> x" "x < real (g * sz + sz)" "0 < sz"
  shows "\<lfloor>x / real sz\<rfloor> = int g"
proof -
  have pos: "0 < real sz" using assms by simp
  have "real g \<le> x / real sz" using assms(1) pos by (simp add: pos_le_divide_eq)
  moreover have "x / real sz < real g + 1"
    using assms(2) pos by (simp add: pos_divide_less_eq algebra_simps)
  ultimately show ?thesis by (intro floor_unique) simp_all
qed

lemma extractCell_position:
  "gridX (extractCell data w h sz gx gy) = gx" "gridY (extractCell data w h sz gx gy) = gy"
  "pixelX (extractCell data w h sz gx gy) = gx * sz" "pixelY (extractCell data w h sz gx gy) = gy * sz"
  by (simp_all add: extractCell_def Let_def)

lemma processImage_grid:
  assumes "originalImage ip = Some img" "canvas ip = Some cv0"
  shows "length (pixelData (processImage br ip)) = gridCount 500 (pixelSize ip)"
    and "gy < gridCount 500 (pixelSize ip) \<Longrightarrow>
           length (pixelData (processImage br ip) ! gy) = gridCount 600 (pixelSize ip)"
  by (simp_all add: processImage_loaded(1)[OF assms])

text \<open>
  Claim C6, amended: for every image processed at cell size C > 0 the grid has exactly
  \<open>ceil(600 / C)\<close> columns and \<open>ceil(500 / C)\<close> rows, the size of the fixed
  canvas and not of the image; every coordinate inside the canvas resolves, by integer
  division by C, to exactly one cell of that grid, whose bounds contain it.
\<close>

theorem processImage_grid_covers_canvas:
  assumes "originalImage ip = Some img" "canvas ip = Some cv0" "0 < pixelSize ip"
  shows "length (pixelData (processImage br ip)) = nat \<lceil>500 / real (pixelSize ip)\<rceil> \<and>
         (\<forall>row \<in> set (pixelData (processImage br ip)).
            length row = nat \<lceil>600 / real (pixelSize ip)\<rceil>) \<and>
         (\<forall>x y. 0 \<le> x \<and> x < 600 \<and> 0 \<le> y \<and> y < 500 \<longrightarrow>
            (\<exists>c. getPixelAt (processImage br ip) x y = Some c \<and>
                 gridX c = nat \<lfloor>x / real (pixelSize ip)\<rfloor> \<and>
                 gridY c = nat \<lfloor>y / real (pixelSize ip)\<rfloor> \<and>
                 c = pixelData (processImage br ip) ! gridY c ! gridX c \<and>
                 cellContains (pixelSize ip) c x y \<and>
                 (\<forall>gy < length (pixelData (processImage br ip)).
                    \<forall>gx < length (pixelData (processImage br ip) ! gy).
                      cellContains (pixelSize ip) (pixelData (processImage br ip) ! gy ! gx) x y
                        \<longrightarrow> gx = gridX c \<and> gy = gridY c)))"
proof (intro conjI allI impI ballI)
  let ?ps = "pixelSize ip" and ?P = "processImage br ip"
  let ?D = "getImageData (pixelatedCanvas br img ?ps)"
  have pd: "pixelData ?P = map (\<lambda>gy. map (\<lambda>gx. extractCell ?D 600 500 ?ps gx gy)
                                   [0..<gridCount 600 ?ps]) [0..<gridCount 500 ?ps]"
    by (rule processImage_loaded(1)[OF assms(1,2)])
  have ps: "pixelSize ?P = ?ps" by (rule processImage_loaded(2)[OF assms(1,2)])
  show "length (pixelData ?P) = nat \<lceil>500 / real ?ps\<rceil>"
    by (simp add: pd gridCount_def)
  show "length row = nat \<lceil>600 / real ?ps\<rceil>" if "row \<in> set (pixelData ?P)" for row
    using that by (auto simp: pd gridCount_def)
  fix x y :: real
  assume xy: "0 \<le> x \<and> x < 600 \<and> 0 \<le> y \<and> y < 500"
  define gx where "gx = nat \<lfloor>x / real ?ps\<rfloor>"
  define gy where "gy = nat \<lfloor>y / real ?ps\<rfloor>"
  have ix: "0 \<le> \<lfloor>x / real ?ps\<rfloor> \<and> gx < gridCount 600 ?ps"
    unfolding gx_def using floor_index_in_grid[of x 600 ?ps] xy assms(3) by simp
  have iy: "0 \<le> \<lfloor>y / real ?ps\<rfloor> \<and> gy < gridCount 500 ?ps"
    unfolding gy_def using floor_index_in_grid[of y 500 ?ps] xy assms(3) by simp
  define c where "c = extractCell ?D 600 500 ?ps gx gy"
  have cell: "pixelData ?P ! gy ! gx = c" using ix iy by (simp add: pd c_def)
  have ne: "pixelData ?P \<noteq> []" using iy by (auto simp: pd)
  have lens: "length (pixelData ?P) = gridCount 500 ?ps"
    "length (pixelData ?P ! gy) = gridCount 600 ?ps"
    using iy by (simp_all add: pd)
  have fx: "\<lfloor>x / real ?ps\<rfloor> = int gx" "\<lfloor>y / real ?ps\<rfloor> = int gy"
    using floor_index_in_grid[of x 600 ?ps] floor_index_in_grid[of y 500 ?ps] xy assms(3)
    by (simp_all add: gx_def gy_def)
  have get: "getPixelAt ?P x y = Some c"
    using ix iy ne lens cell
    by (simp add: getPixelAt_def ps Let_def fx)
  have pos: "gridX c = gx" "gridY c = gy" "pixelX c = gx * ?ps" "pixelY c = gy * ?ps"
    by (simp_all add: c_def extractCell_position)
  have cont: "cellContains ?ps c x y"
    using floor_cell_bounds[of x ?ps] floor_cell_bounds[of y ?ps] xy assms(3)
    by (simp add: cellContains_def pos gx_def gy_def)
  have uniq: "gx' = gx \<and> gy' = gy"
    if "gy' < length (pixelData ?P)" "gx' < length (pixelData ?P ! gy')"
      "cellContains ?ps (pixelData ?P ! gy' ! gx') x y" for gx' gy'
  proof -
    have gy': "gy' < gridCount 500 ?ps" using that(1) by (simp add: pd)
    then have gx': "gx' < gridCount 600 ?ps" using that(2) by (simp add: pd)
    have c': "pixelData ?P ! gy' ! gx' = extractCell ?D 600 500 ?ps gx' gy'"
      using gx' gy' by (simp add: pd)
    have "real (gx' * ?ps) \<le> x" "x < real (gx' * ?ps + ?ps)"
         "real (gy' * ?ps) \<le> y" "y < real (gy' * ?ps + ?ps)"
      using that(3) by (simp_all add: c' cellContains_def extractCell_position)
    then have "\<lfloor>x / real ?ps\<rfloor> = int gx'" "\<lfloor>y / real ?ps\<rfloor> = int gy'"
      using containing_cell_index assms(3) by blast+
    then show ?thesis by (simp add: gx_def gy_def)
  qed
  show "\<exists>c. getPixelAt ?P x y = Some c \<and>
             gridX c = nat \<lfloor>x / real ?ps\<rfloor> \<and> gridY c = nat \<lfloor>y / real ?ps\<rfloor> \<and>
             c = pixelData ?P ! gridY c ! gridX c \<and> cellContains ?ps c x y \<and>
             (\<forall>gy < length (pixelData ?P). \<forall>gx < length (pixelData ?P ! gy).
                cellContains ?ps (pixelData ?P ! gy ! gx) x y \<longrightarrow> gx = gridX c \<and> gy = gridY c)"
    using get pos cell cont uniq
    by (intro exI[of _ c]) (simp add: gx_def[symmetric] gy_def[symmetric])
qed

text \<open>
  Claim C6, as stated: an image of width W and height H gives \<open>ceil(W / C)\<close> columns
  and \<open>ceil(H / C)\<close> rows. An image of 100 by 100 pixels at cell size 50 gives 12
  columns and 10 rows, not 2 and 2.
\<close>

theorem grid_is_over_canvas_not_image:
  "image_width blackImage = 100 \<and> image_height blackImage = 100 \<and>
   pixelSize (loadedProcessor 50) = 50 \<and>
   nat \<lceil>(100::real) / 50\<rceil> = 2 \<and>
   length (pixelData (loadedProcessor 50)) = 10 \<and>
   length (pixelData (loadedProcessor 50) ! 0) = 12"
  using processImage_grid(1)[where ip = "sampleProcessor 50" and br = sampleBrowser,
      OF loaded_fields(1,2)]
    processImage_grid(2)[where ip = "sampleProcessor 50" and br = sampleBrowser and gy = 0,
      OF loaded_fields(1,2)]
    processImage_loaded(2)[where ip = "sampleProcessor 50" and br = sampleBrowser,
      OF loaded_fields(1,2)]
  by (simp add: loadedProcessor_def loaded_fields gridCount_values blackImage_def)

theorem processImage_grid_covers_canvas_witness:
  "originalImage (sampleProcessor 50) = Some blackImage \<and>
   canvas (sampleProcessor 50) = Some blankCanvas \<and> 0 < pixelSize (sampleProcessor 50) \<and>
   length (pixelData (processImage sampleBrowser (sampleProcessor 50))) = 10 \<and>
   (\<exists>c. getPixelAt (processImage sampleBrowser (sampleProcessor 50)) 75 30 = Some c \<and>
        gridX c = 1 \<and> gridY c = 0)"
proof -
  have p: "0 < pixelSize (sampleProcessor 50)" by (simp add: loaded_fields)
  have xy: "(0::real) \<le> 75 \<and> (75::real) < 600 \<and> (0::real) \<le> 30 \<and> (30::real) < 500" by simp
  note t = processImage_grid_covers_canvas[where ip = "sampleProcessor 50"
        and br = sampleBrowser, OF loaded_fields(1,2) p]
  from t have len: "length (pixelData (processImage sampleBrowser (sampleProcessor 50))) =
      nat \<lceil>500 / real (pixelSize (sampleProcessor 50))\<rceil>"
    by (rule conjunct1)
  from t[THEN conjunct2, THEN conjunct2, rule_format, of 75 30] xy
  obtain c where "getPixelAt (processImage sampleBrowser (sampleProcessor 50)) 75 30 = Some c"
    "gridX c = nat \<lfloor>75 / real (pixelSize (sampleProcessor 50))\<rfloor>"
    "gridY c = nat \<lfloor>30 / real (pixelSize (sampleProcessor 50))\<rfloor>"
    by blast
  then have "\<exists>c. getPixelAt (processImage sampleBrowser (sampleProcessor 50)) 75 30 = Some c \<and>
        gridX c = 1 \<and> gridY c = 0"
    by (simp add: loaded_fields)
  then show ?thesis using len by (simp add: loaded_fields)
qed

section \<open>Properties of scan mode\<close>

lemma update_absent:
  "k \<notin> fst ` set al \<Longrightarrow> AList.update k v al = al @ [(k, v)]"
  by (induction al) auto

lemma keys_update_delete:
  "map fst (AList.update k v (AList.delete k al)) = removeAll k (map fst al) @ [k]"
  using update_absent[of k "AList.delete k al" v]
  by (simp add: delete_notin_dom delete_keys)

lemma startScanSound_ready:
  assumes "engineReady e"
  shows "\<exists>e'. startScanSound ct e c k = Inr e' \<and> engineReady e' \<and>
              map fst (synths e') = removeAll k (map fst (synths e)) @ [k] \<and>
              map fst (scanSounds e') = removeAll k (map fst (scanSounds e)) @ [k] \<and>
              map_of (synths e') k \<noteq> None \<and>
              (\<forall>sd. map_of (synths e') k = Some sd \<longrightarrow> sd_hsv sd = c) \<and>
              maxSynths e' = maxSynths e"
proof -
  define e1 where "e1 = stopScanSound e k"
  have s1: "synths e1 = AList.delete k (synths e)" "scanSounds e1 = AList.delete k (scanSounds e)"
    by (simp_all add: e1_def synths_stopScanSound scanSounds_stopScanSound)
  have r1: "isInitialized e1" "currentMode e1 = ''scan''" "reverb e1 \<noteq> None"
    "maxSynths e1 = maxSynths e"
    using assms
    by (simp_all add: e1_def engineReady_def stopScanSound_def cleanupSynth_def
        split: option.splits)
  show ?thesis
    using assms r1 s1
    by (auto simp add: startScanSound_def e1_def[symmetric] createSynth_def Let_def
        engineReady_def keys_update_delete update_conv' simp del: One_nat_def)
qed


lemma fireTimer_scan:
  assumes "timers app = ScanTimer d c i # rest" "engineReady (audioEngine app)"
  shows "\<exists>app'. fireTimer ct app 0 = Inr app' \<and> timers app' = rest \<and>
           scanColumn app' = scanColumn app \<and> engineReady (audioEngine app') \<and>
           map fst (synths (audioEngine app')) =
             removeAll (CellKey (scanColumn app) i) (map fst (synths (audioEngine app))) @
               [CellKey (scanColumn app) i] \<and>
           (\<forall>sd. map_of (synths (audioEngine app')) (CellKey (scanColumn app) i) = Some sd
                  \<longrightarrow> sd_hsv sd = c) \<and>
           map_of (synths (audioEngine app')) (CellKey (scanColumn app) i) \<noteq> None \<and>
           maxSynths (audioEngine app') = maxSynths (audioEngine app) \<and>
           imageProcessor app' = imageProcessor app \<and> canvasMode app' = canvasMode app \<and>
           isPlaying app' = isPlaying app"
proof -
  obtain e' where e': "startScanSound ct (audioEngine app) c (CellKey (scanColumn app) i) = Inr e'"
    "engineReady e'"
    "map fst (synths e') =
       removeAll (CellKey (scanColumn app) i) (map fst (synths (audioEngine app))) @
         [CellKey (scanColumn app) i]"
    "map_of (synths e') (CellKey (scanColumn app) i) \<noteq> None"
    "\<forall>sd. map_of (synths e') (CellKey (scanColumn app) i) = Some sd \<longrightarrow> sd_hsv sd = c"
    "maxSynths e' = maxSynths (audioEngine app)"
    using startScanSound_ready[OF assms(2), of ct c "CellKey (scanColumn app) i"] by blast
  have "fireTimer ct app 0 = Inr (app\<lparr>timers := rest, audioEngine := e'\<rparr>)"
    using assms(1) e'(1) by (simp add: fireTimer_def runTimer_def)
  then show ?thesis using e' by simp
qed

lemma fireAll_scan:
  assumes "timers app = map (\<lambda>i. ScanTimer (d i) (c i) i) idx @ rest"
    "engineReady (audioEngine app)"
  shows "\<exists>app'. fireAll ct (length idx) app = Inr app' \<and> timers app' = rest \<and>
           scanColumn app' = scanColumn app \<and> engineReady (audioEngine app') \<and>
           map fst (synths (audioEngine app')) =
             fold (\<lambda>i ks. removeAll (CellKey (scanColumn app) i) ks @ [CellKey (scanColumn app) i])
               idx (map fst (synths (audioEngine app))) \<and>
           maxSynths (audioEngine app') = maxSynths (audioEngine app) \<and>
           imageProcessor app' = imageProcessor app \<and> canvasMode app' = canvasMode app \<and>
           isPlaying app' = isPlaying app"
  using assms
proof (induction idx arbitrary: app)
  case Nil
  then show ?case by simp
next
  case (Cons i idx)
  have t: "timers app = ScanTimer (d i) (c i) i # (map (\<lambda>i. ScanTimer (d i) (c i) i) idx @ rest)"
    using Cons.prems(1) by simp
  obtain a1 where a1: "fireTimer ct app 0 = Inr a1"
    "timers a1 = map (\<lambda>i. ScanTimer (d i) (c i) i) idx @ rest"
    "scanColumn a1 = scanColumn app" "engineReady (audioEngine a1)"
    "map fst (synths (audioEngine a1)) =
       removeAll (CellKey (scanColumn app) i) (map fst (synths (audioEngine app))) @
         [CellKey (scanColumn app) i]"
    "maxSynths (audioEngine a1) = maxSynths (audioEngine app)"
    "imageProcessor a1 = imageProcessor app" "canvasMode a1 = canvasMode app"
    "isPlaying a1 = isPlaying app"
    using fireTimer_scan[OF t Cons.prems(2), of ct] by blast
  obtain a2 where a2: "fireAll ct (length idx) a1 = Inr a2" "timers a2 = rest"
    "scanColumn a2 = scanColumn a1" "engineReady (audioEngine a2)"
    "map fst (synths (audioEngine a2)) =
       fold (\<lambda>i ks. removeAll (CellKey (scanColumn a1) i) ks @ [CellKey (scanColumn a1) i])
         idx (map fst (synths (audioEngine a1)))"
    "maxSynths (audioEngine a2) = maxSynths (audioEngine a1)"
    "imageProcessor a2 = imageProcessor a1" "canvasMode a2 = canvasMode a1"
    "isPlaying a2 = isPlaying a1"
    using Cons.IH[OF a1(2,4)] by blast
  have "fireAll ct (length (i # idx)) app = Inr a2" using a1(1) a2(1) by simp
  then show ?case using a1 a2 by simp
qed

lemma concat_map_if:
  "concat (map (\<lambda>x. if P x then [h x] else []) xs) = map h (filter P xs)"
  by (induction xs) simp_all

lemma scanTimers_column:
  "scanTimers (map (\<lambda>gy. Some (f gy)) [0..<n]) =
     map (\<lambda>i. ScanTimer (real i / real (scanStep n) * 50) (cell_hsv (f i)) i)
         (filter (\<lambda>i. i mod scanStep n = 0) [0..<n])"
proof -
  have z: "zip (map (\<lambda>gy. Some (f gy)) [0..<n]) [0..<n] = map (\<lambda>i. (Some (f i), i)) [0..<n]"
    by (simp add: zip_map1 zip_same_conv_map)
  show ?thesis
    by (simp add: scanTimers_def Let_def z comp_def concat_map_if)
qed

lemma loaded_pixelData:
  shows "pixelData (loadedProcessor sz) =
     map (\<lambda>gy. map (\<lambda>gx. extractCell (getImageData (pixelatedCanvas sampleBrowser blackImage sz))
                            600 500 sz gx gy) [0..<gridCount 600 sz]) [0..<gridCount 500 sz]"
  and "pixelSize (loadedProcessor sz) = sz"
  and "originalImage (loadedProcessor sz) = Some blackImage"
  unfolding loadedProcessor_def
  using processImage_loaded[where ip = "sampleProcessor sz" and br = sampleBrowser,
      OF loaded_fields(1,2)]
  by (simp_all add: loaded_fields)

lemma loaded_column:
  assumes "0 \<le> x" "x < 600" "0 < sz" "0 < gridCount 500 sz"
  shows "getColumnPixels (loadedProcessor sz) x =
           map (\<lambda>gy. Some (extractCell (getImageData (pixelatedCanvas sampleBrowser blackImage sz))
                              600 500 sz (nat \<lfloor>x / real sz\<rfloor>) gy)) [0..<gridCount 500 sz]"
proof -
  have ix: "0 \<le> \<lfloor>x / real sz\<rfloor> \<and> nat \<lfloor>x / real sz\<rfloor> < gridCount 600 sz"
    using floor_index_in_grid[of x 600 sz] assms by simp
  then have lt: "\<lfloor>x / real sz\<rfloor> < int (gridCount 600 sz)" by linarith
  have ne: "pixelData (loadedProcessor sz) \<noteq> []" using assms(4) by (simp add: loaded_pixelData)
  have l0: "length (pixelData (loadedProcessor sz) ! 0) = gridCount 600 sz"
    using assms(4) by (simp add: loaded_pixelData)
  have "getColumnPixels (loadedProcessor sz) x =
          map (\<lambda>row. js_index row \<lfloor>x / real sz\<rfloor>) (pixelData (loadedProcessor sz))"
    using ix lt ne l0 by (simp add: getColumnPixels_def Let_def loaded_pixelData(2))
  also have "\<dots> = map (\<lambda>gy. Some (extractCell (getImageData (pixelatedCanvas sampleBrowser blackImage sz))
                              600 500 sz (nat \<lfloor>x / real sz\<rfloor>) gy)) [0..<gridCount 500 sz]"
    using ix lt by (simp add: loaded_pixelData(1) js_index_def comp_def)
  finally show ?thesis .
qed

lemma scanApp_fields:
  "audioEngine (scanApp sz) = (init InitOk newAudioEngine)\<lparr>currentMode := ''scan''\<rparr>"
  "imageProcessor (scanApp sz) = loadedProcessor sz"
  "canvasMode (scanApp sz) = ''scan''" "isPlaying (scanApp sz)"
  "scanColumn (scanApp sz) = - 1" "timers (scanApp sz) = []"
  by (simp_all add: scanApp_def setPlaying_def canvasSetMode_def newApp_def setMode_def Let_def)

lemma scanApp_engine:
  "engineReady (audioEngine (scanApp sz))" "synths (audioEngine (scanApp sz)) = []"
  "scanSounds (audioEngine (scanApp sz)) = []" "maxSynths (audioEngine (scanApp sz)) = 5"
  by (simp_all add: scanApp_fields engineReady_def init_def newAudioEngine_def)


lemma stopScanSound_ready:
  "engineReady e \<Longrightarrow> engineReady (stopScanSound e k)"
  "maxSynths (stopScanSound e k) = maxSynths e"
  by (simp_all add: engineReady_def stopScanSound_def cleanupSynth_def split: option.splits)

lemma hasImage_loaded: "0 < gridCount 500 sz \<Longrightarrow> hasImage (loadedProcessor sz)"
  by (simp add: hasImage_def loaded_pixelData)

lemma mouseMoved_scan:
  assumes "imageProcessor app = loadedProcessor sz" "canvasMode app = ''scan''" "isPlaying app"
    "0 \<le> x" "x < 600" "0 < sz" "0 < gridCount 500 sz"
    "\<lfloor>x / real sz\<rfloor> \<noteq> scanColumn app"
    "NumKey (scanColumn app) \<notin> fst ` set (synths (audioEngine app))"
  shows "timers (mouseMoved app x) =
           timers app @
           map (\<lambda>i. ScanTimer (real i / real (scanStep (gridCount 500 sz)) * 50)
                  (cell_hsv (extractCell (getImageData (pixelatedCanvas sampleBrowser blackImage sz))
                               600 500 sz (nat \<lfloor>x / real sz\<rfloor>) i)) i)
               (filter (\<lambda>i. i mod scanStep (gridCount 500 sz) = 0) [0..<gridCount 500 sz])"
    and "scanColumn (mouseMoved app x) = \<lfloor>x / real sz\<rfloor>"
    and "engineReady (audioEngine app) \<Longrightarrow> engineReady (audioEngine (mouseMoved app x))"
    and "synths (audioEngine (mouseMoved app x)) = synths (audioEngine app)"
    and "maxSynths (audioEngine (mouseMoved app x)) = maxSynths (audioEngine app)"
    and "imageProcessor (mouseMoved app x) = imageProcessor app"
    and "canvasMode (mouseMoved app x) = canvasMode app"
    and "isPlaying (mouseMoved app x) = isPlaying app"
proof -
  let ?e1 = "if 0 \<le> scanColumn app
             then stopScanSound (audioEngine app) (NumKey (scanColumn app)) else audioEngine app"
  have mm: "mouseMoved app x =
      app\<lparr>audioEngine := ?e1, scanColumn := \<lfloor>x / real sz\<rfloor>,
          timers := timers app @ scanTimers (getColumnPixels (loadedProcessor sz) x)\<rparr>"
    using assms(1,2,3,8) hasImage_loaded[OF assms(7)]
    by (simp add: mouseMoved_def handleScanMove_def Let_def loaded_pixelData(2))
  show "timers (mouseMoved app x) =
           timers app @
           map (\<lambda>i. ScanTimer (real i / real (scanStep (gridCount 500 sz)) * 50)
                  (cell_hsv (extractCell (getImageData (pixelatedCanvas sampleBrowser blackImage sz))
                               600 500 sz (nat \<lfloor>x / real sz\<rfloor>) i)) i)
               (filter (\<lambda>i. i mod scanStep (gridCount 500 sz) = 0) [0..<gridCount 500 sz])"
    by (simp only: mm loaded_column[OF assms(4,5,6,7)] scanTimers_column) simp
  show "scanColumn (mouseMoved app x) = \<lfloor>x / real sz\<rfloor>" by (simp add: mm)
  show "engineReady (audioEngine (mouseMoved app x))" if "engineReady (audioEngine app)"
    using that by (simp add: mm stopScanSound_ready)
  show "synths (audioEngine (mouseMoved app x)) = synths (audioEngine app)"
    using assms(9) by (simp add: mm synths_stopScanSound)
  show "maxSynths (audioEngine (mouseMoved app x)) = maxSynths (audioEngine app)"
    by (simp add: mm stopScanSound_ready)
  show "imageProcessor (mouseMoved app x) = imageProcessor app"
    "canvasMode (mouseMoved app x) = canvasMode app"
    "isPlaying (mouseMoved app x) = isPlaying app"
    by (simp_all add: mm)
qed

text \<open>
  Claim C1: the live voices never exceed the cap of five, a scan column being
  down-sampled with the stride \<open>ceil(count / cap)\<close>. The stride \<open>handleScanMove\<close>
  computes is \<open>max(1, floor(count / 5))\<close>: at cell size 60 the canvas has nine rows,
  the stride is 1 where the claim's is 2, nine timers are set, and once they have fired
  nine voices are live while \<open>maxSynths\<close> is 5 (nothing in the engine reads
  \<open>maxSynths\<close>).
\<close>

theorem nine_row_column_starts_nine_voices:
  "scanStep 9 = 1 \<and> maxSynths (audioEngine (scanApp 60)) = 5 \<and>
   length (timers (mouseMoved (scanApp 60) 30)) = 9 \<and>
   \<not> isl (fireAll True 9 (mouseMoved (scanApp 60) 30)) \<and>
   map fst (synths (audioEngine (projr (fireAll True 9 (mouseMoved (scanApp 60) 30))))) =
     [CellKey 0 0, CellKey 0 1, CellKey 0 2, CellKey 0 3, CellKey 0 4, CellKey 0 5,
      CellKey 0 6, CellKey 0 7, CellKey 0 8]"
proof -
  let ?A = "mouseMoved (scanApp 60) 30"
  define idx where "idx = filter (\<lambda>i. i mod scanStep (gridCount 500 60) = 0) [0..<gridCount 500 60]"
  have step: "scanStep 9 = 1" by (simp add: scanStep_def)
  have upt9: "[0..<9] = [0, 1, 2, 3, 4, 5, 6, 7, 8::nat]" by code_simp
  have idx: "idx = [0, 1, 2, 3, 4, 5, 6, 7, 8]"
    by (simp add: idx_def gridCount_values step upt9)
  note mm = mouseMoved_scan[where app = "scanApp 60" and sz = 60 and x = 30]
  have pre: "0 < gridCount 500 60" "\<lfloor>30 / real 60\<rfloor> \<noteq> scanColumn (scanApp 60)"
    "NumKey (scanColumn (scanApp 60)) \<notin> fst ` set (synths (audioEngine (scanApp 60)))"
    by (simp_all add: gridCount_values scanApp_fields(5) scanApp_engine)
  have t: "timers ?A = map (\<lambda>i. ScanTimer (real i / real (scanStep (gridCount 500 60)) * 50)
                  (cell_hsv (extractCell (getImageData (pixelatedCanvas sampleBrowser blackImage 60))
                               600 500 60 (nat \<lfloor>30 / real 60\<rfloor>) i)) i) idx @ []"
    using mm(1)[OF scanApp_fields(2,3,4) _ _ _ pre] by (simp add: scanApp_fields(6) idx_def)
  have col: "scanColumn ?A = 0"
    using mm(2)[OF scanApp_fields(2,3,4) _ _ _ pre] by simp
  have rdy: "engineReady (audioEngine ?A)"
    using mm(3)[OF scanApp_fields(2,3,4) _ _ _ pre scanApp_engine(1)] by simp
  have syn: "synths (audioEngine ?A) = []"
    using mm(4)[OF scanApp_fields(2,3,4) _ _ _ pre] by (simp add: scanApp_engine)
  obtain A' where A': "fireAll True (length idx) ?A = Inr A'"
    "map fst (synths (audioEngine A')) =
       fold (\<lambda>i ks. removeAll (CellKey (scanColumn ?A) i) ks @ [CellKey (scanColumn ?A) i])
         idx (map fst (synths (audioEngine ?A)))"
    using fireAll_scan[OF t rdy, of True] by blast
  have len: "length idx = 9" by (simp add: idx)
  have keys: "map fst (synths (audioEngine A')) =
     [CellKey 0 0, CellKey 0 1, CellKey 0 2, CellKey 0 3, CellKey 0 4, CellKey 0 5,
      CellKey 0 6, CellKey 0 7, CellKey 0 8]"
    by (simp add: A'(2) col syn idx)
  have nt: "length (timers ?A) = 9" by (simp add: t len)
  show ?thesis using A'(1) keys nt step by (simp add: len scanApp_engine)
qed


lemma five_row_indices:
  "filter (\<lambda>i. i mod scanStep (gridCount 500 100) = 0) [0..<gridCount 500 100] = [0, 1, 2, 3, 4]"
proof -
  have upt5: "[0..<5] = [0, 1, 2, 3, 4::nat]" by code_simp
  show ?thesis by (simp add: gridCount_values scanStep_def upt5)
qed

lemma first_move_state:
  "timers (mouseMoved (scanApp 100) 50) =
     map (\<lambda>i. ScanTimer (real i / real (scanStep (gridCount 500 100)) * 50)
            (cell_hsv (extractCell (getImageData (pixelatedCanvas sampleBrowser blackImage 100))
                         600 500 100 (nat \<lfloor>50 / real 100\<rfloor>) i)) i) [0, 1, 2, 3, 4] @ []"
  "scanColumn (mouseMoved (scanApp 100) 50) = 0"
  "engineReady (audioEngine (mouseMoved (scanApp 100) 50))"
  "synths (audioEngine (mouseMoved (scanApp 100) 50)) = []"
  "imageProcessor (mouseMoved (scanApp 100) 50) = loadedProcessor 100"
  "canvasMode (mouseMoved (scanApp 100) 50) = ''scan''"
  "isPlaying (mouseMoved (scanApp 100) 50)"
proof -
  have g: "0 < gridCount 500 100" by (simp add: gridCount_values)
  note m1 = mouseMoved_scan[where app = "scanApp 100" and sz = 100 and x = 50,
      OF scanApp_fields(2,3,4) _ _ _ g]
  have pre1: "\<lfloor>50 / real 100\<rfloor> \<noteq> scanColumn (scanApp 100)"
    "NumKey (scanColumn (scanApp 100)) \<notin> fst ` set (synths (audioEngine (scanApp 100)))"
    by (simp_all add: scanApp_fields(5) scanApp_engine)
  show "timers (mouseMoved (scanApp 100) 50) =
     map (\<lambda>i. ScanTimer (real i / real (scanStep (gridCount 500 100)) * 50)
            (cell_hsv (extractCell (getImageData (pixelatedCanvas sampleBrowser blackImage 100))
                         600 500 100 (nat \<lfloor>50 / real 100\<rfloor>) i)) i) [0, 1, 2, 3, 4] @ []"
    using m1(1)[OF _ _ _ pre1] by (simp add: scanApp_fields(6) five_row_indices)
  show "scanColumn (mouseMoved (scanApp 100) 50) = 0"
    "engineReady (audioEngine (mouseMoved (scanApp 100) 50))"
    "synths (audioEngine (mouseMoved (scanApp 100) 50)) = []"
    "imageProcessor (mouseMoved (scanApp 100) 50) = loadedProcessor 100"
    "canvasMode (mouseMoved (scanApp 100) 50) = ''scan''"
    "isPlaying (mouseMoved (scanApp 100) 50)"
    using m1(2)[OF _ _ _ pre1] m1(3)[OF _ _ _ pre1 scanApp_engine(1)] m1(4)[OF _ _ _ pre1]
      m1(6)[OF _ _ _ pre1] m1(7)[OF _ _ _ pre1] m1(8)[OF _ _ _ pre1]
    by (simp_all add: scanApp_engine scanApp_fields(2-6))
qed

text \<open>
  Claim C2: on a change of column the voices of the previous column are stopped before
  those of the new one start, and a deferred onset that fires after the change starts no
  voice for the stale column, so that the voices of one column at most are live. The
  stop in \<open>handleScanMove\<close> is called with \<open>scanColumn\<close>, a number, while the voices
  of a column were started under the strings \<open>`${scanColumn}_${index}`\<close>: it finds no
  voice. At cell size 100 a column has five rows and every one gets a voice; the pointer
  visits column 0 and then column 1, the timers firing after each move. The move to
  column 1 leaves the five voices of column 0 as they are, and once its timers have
  fired they are live together with the five of column 1.
\<close>

theorem previous_column_voices_stay_live:
  "\<not> isl (fireAll True 5 (mouseMoved (scanApp 100) 50)) \<and>
   map fst (synths (audioEngine (projr (fireAll True 5 (mouseMoved (scanApp 100) 50))))) =
     [CellKey 0 0, CellKey 0 1, CellKey 0 2, CellKey 0 3, CellKey 0 4] \<and>
   scanColumn (mouseMoved (projr (fireAll True 5 (mouseMoved (scanApp 100) 50))) 150) = 1 \<and>
   map fst (synths (audioEngine
      (mouseMoved (projr (fireAll True 5 (mouseMoved (scanApp 100) 50))) 150))) =
     [CellKey 0 0, CellKey 0 1, CellKey 0 2, CellKey 0 3, CellKey 0 4] \<and>
   \<not> isl (fireAll True 5 (mouseMoved (projr (fireAll True 5 (mouseMoved (scanApp 100) 50))) 150)) \<and>
   map fst (synths (audioEngine (projr (fireAll True 5
      (mouseMoved (projr (fireAll True 5 (mouseMoved (scanApp 100) 50))) 150))))) =
     [CellKey 0 0, CellKey 0 1, CellKey 0 2, CellKey 0 3, CellKey 0 4,
      CellKey 1 0, CellKey 1 1, CellKey 1 2, CellKey 1 3, CellKey 1 4]"
proof -
  let ?E = "extractCell (getImageData (pixelatedCanvas sampleBrowser blackImage 100)) 600 500 100"
  let ?A1 = "mouseMoved (scanApp 100) 50"
  have g: "0 < gridCount 500 100" by (simp add: gridCount_values)
  note t1 = first_move_state(1)
  note a1 = first_move_state(2-7)
  obtain F1 where F1: "fireAll True (length [0, 1, 2, 3, 4::nat]) ?A1 = Inr F1" "timers F1 = []"
    "scanColumn F1 = scanColumn ?A1" "engineReady (audioEngine F1)"
    "map fst (synths (audioEngine F1)) =
       fold (\<lambda>i ks. removeAll (CellKey (scanColumn ?A1) i) ks @ [CellKey (scanColumn ?A1) i])
         [0, 1, 2, 3, 4] (map fst (synths (audioEngine ?A1)))"
    "imageProcessor F1 = imageProcessor ?A1" "canvasMode F1 = canvasMode ?A1"
    "isPlaying F1 = isPlaying ?A1"
    using fireAll_scan[OF t1 a1(2), of True] by blast
  have l5: "length [0, 1, 2, 3, 4::nat] = 5" by simp
  have r1: "fireAll True 5 ?A1 = Inr F1" using F1(1) by (simp only: l5)
  then have p1: "projr (fireAll True 5 ?A1) = F1" by (simp only: sum.sel)
  have i1: "\<not> isl (fireAll True 5 ?A1)" by (simp only: r1 sum.disc simp_thms)
  have k1: "map fst (synths (audioEngine F1)) =
      [CellKey 0 0, CellKey 0 1, CellKey 0 2, CellKey 0 3, CellKey 0 4]"
    by (simp add: F1(5) a1)
  have f1: "imageProcessor F1 = loadedProcessor 100" "canvasMode F1 = ''scan''" "isPlaying F1"
    "scanColumn F1 = 0"
    by (simp_all add: F1 a1)
  have nk: "NumKey (scanColumn F1) \<notin> fst ` set (synths (audioEngine F1))"
  proof -
    have "NumKey (scanColumn F1) \<notin> set (map fst (synths (audioEngine F1)))"
      by (simp add: k1)
    then show ?thesis by simp
  qed
  let ?A2 = "mouseMoved F1 150"
  note m2 = mouseMoved_scan[where app = F1 and sz = 100 and x = 150, OF f1(1,2,3) _ _ _ g]
  have pre2: "\<lfloor>150 / real 100\<rfloor> \<noteq> scanColumn F1" by (simp add: f1)
  have t2: "timers ?A2 = map (\<lambda>i. ScanTimer (real i / real (scanStep (gridCount 500 100)) * 50)
                  (cell_hsv (?E (nat \<lfloor>150 / real 100\<rfloor>) i)) i) [0, 1, 2, 3, 4] @ []"
    using m2(1)[OF _ _ _ pre2 nk] by (simp add: F1(2) five_row_indices)
  have a2: "scanColumn ?A2 = 1" "engineReady (audioEngine ?A2)"
    "synths (audioEngine ?A2) = synths (audioEngine F1)"
    using m2(2)[OF _ _ _ pre2 nk] m2(3)[OF _ _ _ pre2 nk F1(4)] m2(4)[OF _ _ _ pre2 nk]
    by simp_all
  obtain F2 where F2: "fireAll True (length [0, 1, 2, 3, 4::nat]) ?A2 = Inr F2"
    "map fst (synths (audioEngine F2)) =
       fold (\<lambda>i ks. removeAll (CellKey (scanColumn ?A2) i) ks @ [CellKey (scanColumn ?A2) i])
         [0, 1, 2, 3, 4] (map fst (synths (audioEngine ?A2)))"
    using fireAll_scan[OF t2 a2(2), of True] by blast
  have r2: "fireAll True 5 ?A2 = Inr F2" using F2(1) by (simp only: l5)
  then have p2: "projr (fireAll True 5 ?A2) = F2" by (simp only: sum.sel)
  have i2: "\<not> isl (fireAll True 5 ?A2)" by (simp only: r2 sum.disc simp_thms)
  have k2: "map fst (synths (audioEngine F2)) =
     [CellKey 0 0, CellKey 0 1, CellKey 0 2, CellKey 0 3, CellKey 0 4,
      CellKey 1 0, CellKey 1 1, CellKey 1 2, CellKey 1 3, CellKey 1 4]"
    by (simp add: F2(2) a2 k1)
  have k1': "map fst (synths (audioEngine ?A2)) =
      [CellKey 0 0, CellKey 0 1, CellKey 0 2, CellKey 0 3, CellKey 0 4]"
    by (simp only: a2(3) k1)
  show ?thesis using i1 i2 by (simp only: p1 p2 k1 k1' k2 a2(1) simp_thms)
qed

lemma drawnCanvas_black_inside:
  assumes "50 \<le> x" "x < 550" "y < 500"
  shows "canvas_px (drawnCanvas sampleBrowser blackImage) x y = (0, 0, 0)"
proof -
  have px: "image_px blackImage a b = (0, 0, 0)" for a b by (simp add: blackImage_def)
  show ?thesis
    using assms
    by (simp add: drawnCanvas_def scaledSize_blackImage drawImage_def fillRect_def Let_def
        sampleBrowser_def px)
qed

lemma black_cell_mean:
  "meanColour (drawnCanvas sampleBrowser blackImage) 50 100 0 50 =
     \<lparr>rgb_r = 0, rgb_g = 0, rgb_b = 0\<rparr>"
proof -
  have "meanColour (drawnCanvas sampleBrowser blackImage) 50 100 0 50 =
          \<lparr>rgb_r = real (red (0, 0, 0)), rgb_g = real (green (0, 0, 0)),
           rgb_b = real (blue (0, 0, 0))\<rparr>"
    by (rule meanColour_const) (simp_all add: drawnCanvas_black_inside)
  then show ?thesis by (simp add: red_def green_def blue_def)
qed

lemma loaded_second_cell:
  "pixelData (loadedProcessor 50) ! 0 ! 1 =
     \<lparr>cell_rgb = \<lparr>rgb_r = 0, rgb_g = 0, rgb_b = 0\<rparr>,
      cell_hsv = \<lparr>hsv_h = 0, hsv_s = 0, hsv_v = 0\<rparr>,
      gridX = 1, gridY = 0, pixelX = 50, pixelY = 0\<rparr>"
proof -
  have "pixelData (loadedProcessor 50) ! 0 ! 1 =
          extractCell (getImageData (pixelatedCanvas sampleBrowser blackImage 50)) 600 500 50 1 0"
    unfolding loadedProcessor_def
    using processImage_cell[where ip = "sampleProcessor 50" and br = sampleBrowser
        and gx = 1 and gy = 0, OF loaded_fields(1,2)]
    by (simp add: gridCount_values loaded_fields)
  also have "\<dots> = \<lparr>cell_rgb = \<lparr>rgb_r = 0, rgb_g = 0, rgb_b = 0\<rparr>,
      cell_hsv = \<lparr>hsv_h = 0, hsv_s = 0, hsv_v = 0\<rparr>,
      gridX = 1, gridY = 0, pixelX = 50, pixelY = 0\<rparr>"
    using extractCell_pixelated[of 50 1 0 sampleBrowser blackImage]
    by (simp add: gridCount_values black_cell_mean rgbToHsv_black)
  finally show ?thesis .
qed

lemma ten_row_indices:
  "filter (\<lambda>i. i mod scanStep (gridCount 500 50) = 0) [0..<gridCount 500 50] = [0, 2, 4, 6, 8]"
proof -
  have upt10: "[0..<10] = [0, 1, 2, 3, 4, 5, 6, 7, 8, 9::nat]" by code_simp
  have step: "scanStep 10 = 2" by (simp add: scanStep_def)
  show ?thesis by (simp add: gridCount_values step upt10)
qed

lemma margin_move_state:
  "timers (mouseMoved (scanApp 50) 25) =
     map (\<lambda>i. ScanTimer (real i / real (scanStep (gridCount 500 50)) * 50)
            (cell_hsv (extractCell (getImageData (pixelatedCanvas sampleBrowser blackImage 50))
                         600 500 50 (nat \<lfloor>25 / real 50\<rfloor>) i)) i) [0, 2, 4, 6, 8] @ []"
  "scanColumn (mouseMoved (scanApp 50) 25) = 0"
  "engineReady (audioEngine (mouseMoved (scanApp 50) 25))"
  "synths (audioEngine (mouseMoved (scanApp 50) 25)) = []"
  "imageProcessor (mouseMoved (scanApp 50) 25) = loadedProcessor 50"
  "canvasMode (mouseMoved (scanApp 50) 25) = ''scan''"
  "isPlaying (mouseMoved (scanApp 50) 25)"
proof -
  have g: "0 < gridCount 500 50" by (simp add: gridCount_values)
  note m1 = mouseMoved_scan[where app = "scanApp 50" and sz = 50 and x = 25,
      OF scanApp_fields(2,3,4) _ _ _ g]
  have pre1: "\<lfloor>25 / real 50\<rfloor> \<noteq> scanColumn (scanApp 50)"
    "NumKey (scanColumn (scanApp 50)) \<notin> fst ` set (synths (audioEngine (scanApp 50)))"
    by (simp_all add: scanApp_fields(5) scanApp_engine)
  show "timers (mouseMoved (scanApp 50) 25) =
     map (\<lambda>i. ScanTimer (real i / real (scanStep (gridCount 500 50)) * 50)
            (cell_hsv (extractCell (getImageData (pixelatedCanvas sampleBrowser blackImage 50))
                         600 500 50 (nat \<lfloor>25 / real 50\<rfloor>) i)) i) [0, 2, 4, 6, 8] @ []"
    using m1(1)[OF _ _ _ pre1] by (simp add: scanApp_fields(6) ten_row_indices)
  show "scanColumn (mouseMoved (scanApp 50) 25) = 0"
    "engineReady (audioEngine (mouseMoved (scanApp 50) 25))"
    "synths (audioEngine (mouseMoved (scanApp 50) 25)) = []"
    "imageProcessor (mouseMoved (scanApp 50) 25) = loadedProcessor 50"
    "canvasMode (mouseMoved (scanApp 50) 25) = ''scan''"
    "isPlaying (mouseMoved (scanApp 50) 25)"
    using m1(2)[OF _ _ _ pre1] m1(3)[OF _ _ _ pre1 scanApp_engine(1)] m1(4)[OF _ _ _ pre1]
      m1(6)[OF _ _ _ pre1] m1(7)[OF _ _ _ pre1] m1(8)[OF _ _ _ pre1]
    by (simp_all add: scanApp_engine scanApp_fields(2-6))
qed

lemma margin_cell:
  "extractCell (getImageData (pixelatedCanvas sampleBrowser blackImage 50)) 600 500 50 0 0 =
     pixelData (loadedProcessor 50) ! 0 ! 0"
  by (simp add: loaded_pixelData(1) gridCount_values)

text \<open>
  Nor is a deferred onset checked when it fires: the timer callback reads
  \<open>this.scanColumn\<close> at that moment. At cell size 50 the sample image leaves column 0
  white and makes column 1 black; the pointer enters column 0 and moves on to column 1
  before any timer has fired. The first timer, set for the top cell of column 0, then
  starts a voice with the white of that cell under the key of column 1, whose top cell
  is black.
\<close>

theorem stale_onset_starts_voice:
  "scanColumn (mouseMoved (mouseMoved (scanApp 50) 25) 75) = 1 \<and>
   \<not> isl (fireTimer True (mouseMoved (mouseMoved (scanApp 50) 25) 75) 0) \<and>
   map fst (synths (audioEngine (projr (fireTimer True
      (mouseMoved (mouseMoved (scanApp 50) 25) 75) 0)))) = [CellKey 1 0] \<and>
   map (sd_hsv \<circ> snd) (synths (audioEngine (projr (fireTimer True
      (mouseMoved (mouseMoved (scanApp 50) 25) 75) 0)))) =
     [\<lparr>hsv_h = 0, hsv_s = 0, hsv_v = 100\<rparr>] \<and>
   cell_hsv (pixelData (loadedProcessor 50) ! 0 ! 0) = \<lparr>hsv_h = 0, hsv_s = 0, hsv_v = 100\<rparr> \<and>
   cell_hsv (pixelData (loadedProcessor 50) ! 0 ! 1) = \<lparr>hsv_h = 0, hsv_s = 0, hsv_v = 0\<rparr>"
proof -
  let ?E = "extractCell (getImageData (pixelatedCanvas sampleBrowser blackImage 50)) 600 500 50"
  let ?A1 = "mouseMoved (scanApp 50) 25"
  let ?B2 = "mouseMoved ?A1 75"
  have g: "0 < gridCount 500 50" by (simp add: gridCount_values)
  note t1 = margin_move_state(1)
  note a1 = margin_move_state(2-7)
  note m3 = mouseMoved_scan[where app = ?A1 and sz = 50 and x = 75, OF a1(4,5,6) _ _ _ g]
  have pre3: "\<lfloor>75 / real 50\<rfloor> \<noteq> scanColumn ?A1"
    "NumKey (scanColumn ?A1) \<notin> fst ` set (synths (audioEngine ?A1))"
    by (simp_all add: a1)
  have fl: "\<lfloor>75 / real 50\<rfloor> = 1" by simp
  have b2: "scanColumn ?B2 = 1" "engineReady (audioEngine ?B2)" "synths (audioEngine ?B2) = []"
    using m3(2)[OF _ _ _ pre3] m3(3)[OF _ _ _ pre3 a1(2)] m3(4)[OF _ _ _ pre3]
    by (simp_all add: a1)
  have "timers ?B2 = timers ?A1 @
      map (\<lambda>i. ScanTimer (real i / real (scanStep (gridCount 500 50)) * 50)
                  (cell_hsv (?E (nat \<lfloor>75 / real 50\<rfloor>) i)) i) [0, 2, 4, 6, 8]"
    using m3(1)[OF _ _ _ pre3] by (simp add: ten_row_indices)
  then obtain d rest where t3: "timers ?B2 = ScanTimer d (cell_hsv (?E 0 0)) 0 # rest"
    by (simp add: t1)
  obtain G where G: "fireTimer True ?B2 0 = Inr G"
    "map fst (synths (audioEngine G)) =
       removeAll (CellKey (scanColumn ?B2) 0) (map fst (synths (audioEngine ?B2))) @
         [CellKey (scanColumn ?B2) 0]"
    "\<forall>sd. map_of (synths (audioEngine G)) (CellKey (scanColumn ?B2) 0) = Some sd
          \<longrightarrow> sd_hsv sd = cell_hsv (?E 0 0)"
    using fireTimer_scan[OF t3 b2(2), of True] by blast
  have kG: "map fst (synths (audioEngine G)) = [CellKey 1 0]" by (simp add: G(2) b2)
  then obtain sd where sd: "synths (audioEngine G) = [(CellKey 1 0, sd)]"
    by (cases "synths (audioEngine G)") auto
  then have "sd_hsv sd = cell_hsv (?E 0 0)" using G(3) by (simp add: b2)
  then have hG: "map (sd_hsv \<circ> snd) (synths (audioEngine G)) =
      [\<lparr>hsv_h = 0, hsv_s = 0, hsv_v = 100\<rparr>]"
    by (simp add: sd margin_cell loaded_top_left_cell)
  have pG: "projr (fireTimer True ?B2 0) = G" using G(1) by simp
  have iG: "\<not> isl (fireTimer True ?B2 0)" using G(1) by simp
  have c0: "cell_hsv (pixelData (loadedProcessor 50) ! 0 ! 0) = \<lparr>hsv_h = 0, hsv_s = 0, hsv_v = 100\<rparr>"
    by (simp add: loaded_top_left_cell)
  have c1: "cell_hsv (pixelData (loadedProcessor 50) ! 0 ! 1) = \<lparr>hsv_h = 0, hsv_s = 0, hsv_v = 0\<rparr>"
    using loaded_second_cell by simp
  show ?thesis using iG by (simp only: b2 pG kG hG c0 c1 simp_thms)
qed
end
